theory Spec2Isabelle
  imports Complex_Main
begin

section \<open>Data model (src/types/pipeline.ts and the state of the App component)\<close>

text \<open>
  The orchestrator is the React component \<open>App\<close> (second document of
  src/vite.config.ts). Its \<open>useState\<close> cells are the fields of the record \<open>app\<close>;
  every setter call becomes a record update. The asynchronous function \<open>handleSubmit\<close>
  is cut at its \<open>await\<close>s: the code between two \<open>await\<close>s is one function on the
  state, and the place where an activation of \<open>handleSubmit\<close> is suspended is a value of
  the datatype \<open>pc\<close>, which carries the local variables that the rest of the function reads.
  What the collaborators answer (and when) is an \<open>event\<close>.

  Numbers: \<open>progress\<close> is a JavaScript double; a finite double is modelled by the rational
  it denotes, and the two operations that compute a progress are rounded as IEEE 754
  prescribes (section \<open>JavaScript numbers\<close>).
  The payload types of ./types (not part of the sources) are opaque to the orchestrator and
  are modelled by strings.
\<close>

datatype PipelineStageStatus = Pending | Running | Complete | Error | Skipped

record PipelineStage =
  sid :: string
  name :: string
  description :: string
  status :: PipelineStageStatus
  progress :: rat
  itemsProcessed :: "int option"
  totalItems :: "int option"
  currentTask :: "string option"
  startTime :: "nat option"
  endTime :: "nat option"

text \<open>\<open>Partial<PipelineStage>\<close> as \<open>updateStage\<close> receives it: a field that is \<open>None\<close> is absent
  from the object literal. No call site passes \<open>id\<close>, \<open>name\<close> or \<open>description\<close>.\<close>

record StageUpdate =
  u_status :: "PipelineStageStatus option"
  u_progress :: "rat option"
  u_itemsProcessed :: "int option"
  u_totalItems :: "int option"
  u_currentTask :: "string option"
  u_startTime :: "nat option"
  u_endTime :: "nat option"

datatype LogType = Info | Success | Warning | LogError | Ai

record ActivityLogEntry =
  timestamp :: nat
  message :: string
  ltype :: LogType
  stage :: "string option"

type_synonym SitewideAnalysis = string
type_synonym SeoAnalysisResult = string
type_synonym ExecutiveSummary = string
type_synonym DailyActionPlan = string
type_synonym GroundingSource = string
type_synonym AiConfig = string

record PartialResults =
  sitewideAnalysis :: "SitewideAnalysis option"
  seoAnalysis :: "SeoAnalysisResult option"
  executiveSummary :: "ExecutiveSummary option"
  actionPlan :: "DailyActionPlan list option"
  urlsDiscovered :: "nat option"
  urlsAnalyzed :: "nat option"

text \<open>\<open>id\<close> and \<open>date\<close> of a history record are renderings of a clock reading
  (\<open>new Date().toISOString()\<close>, \<open>new Date().toLocaleString(...)\<close>); the model keeps the reading.\<close>

record HistoricalAnalysis =
  h_id :: nat
  h_date :: nat
  h_sitemapUrl :: string
  h_competitorSitemaps :: "string list"
  h_sitewideAnalysis :: SitewideAnalysis
  h_analysis :: SeoAnalysisResult
  h_sources :: "GroundingSource list"
  h_analysisType :: string
  h_location :: string
  h_actionPlan :: "DailyActionPlan list"
  h_executiveSummary :: ExecutiveSummary

record WizardSubmitData =
  d_sitemapUrl :: string
  d_url :: string
  d_competitorSitemaps :: string
  d_analysisType :: string
  d_targetLocation :: string

record CrawlProgress =
  p_count :: int
  p_total :: int
  p_currentSitemap :: "string option"

record CachedAnalysis =
  c_sitewide :: SitewideAnalysis
  c_seo :: SeoAnalysisResult

datatype AppState = AppIdle | AppLoading | AppResults | AppError | AppConfigureAi

datatype LoadingPhase = Crawling | Analyzing

text \<open>A value caught by \<open>catch (e)\<close>: an \<open>Error\<close> object with its message, or anything else.\<close>

datatype thrown = ErrorObj string | NonError

text \<open>Where an activation of \<open>handleSubmit\<close> is suspended, with the locals still needed.\<close>

datatype pc =
    AwaitCrawl
  | AwaitCacheGet "string list"
  | HitAwaitPlan CachedAnalysis
  | HitAwaitSummary CachedAnalysis "DailyActionPlan list"
  | AwaitFanout "string list"
  | AwaitCacheSet SitewideAnalysis SeoAnalysisResult "GroundingSource list"
  | AwaitPlan SitewideAnalysis SeoAnalysisResult "GroundingSource list"
  | AwaitSummary SitewideAnalysis SeoAnalysisResult "GroundingSource list" "DailyActionPlan list"
  | Returned

text \<open>One activation of \<open>handleSubmit\<close>: the values its closure captured when the callback
  was created (\<open>aiConfig\<close>, \<open>analysisHistory\<close>, \<open>isCancelling\<close>, all from the render before
  the submission), its argument, the local \<open>competitorUrls\<close>, and which collaborator calls
  with a progress callback it has issued so far.\<close>

record activation =
  a_data :: WizardSubmitData
  a_aiConfig :: AiConfig
  a_history :: "HistoricalAnalysis list"
  a_isCancelling :: bool
  a_competitorUrls :: "string list"
  a_fanoutIssued :: bool
  a_planIssued :: bool
  a_pc :: pc

text \<open>
  The state: the \<open>useState\<close> cells of \<open>App\<close> that the orchestrator touches, the
  \<open>AbortController\<close> behind \<open>abortControllerRef\<close> (\<open>None\<close> is \<open>null\<close>, \<open>Some b\<close> a controller
  whose signal is aborted iff \<open>b\<close>), the entry of \<open>localStorage\<close> under
  \<open>HISTORY_STORAGE_KEY\<close>, the clock behind \<open>Date.now()\<close> (the last reading and the
  increments of the readings to come: the clock never runs backwards), and the activations
  of \<open>handleSubmit\<close> started so far.
  \<open>partialWrites\<close> is bookkeeping for the claims about the accumulator: the object literals
  handed to \<open>setPartialResults\<close> since the last \<open>resetPipeline\<close>, in call order.
\<close>

record app =
  error :: "string option"
  analysisHistory :: "HistoricalAnalysis list"
  selectedAnalysisId :: "nat option"
  appState :: AppState
  loadingPhase :: LoadingPhase
  crawlProgress :: "CrawlProgress option"
  pipelineStages :: "PipelineStage list"
  activityLog :: "ActivityLogEntry list"
  partialResults :: PartialResults
  analysisStartTime :: nat
  aiConfig :: "AiConfig option"
  isCancelling :: bool
  abortController :: "bool option"
  storedHistory :: "HistoricalAnalysis list option"
  clock :: nat
  ticks :: "nat list"
  runs :: "activation list"
  partialWrites :: "PartialResults list"

datatype event =
    Submit WizardSubmitData "string option"
  | Cancel
  | NewAnalysis
  | AiConfigChange AiConfig
  | CrawlFrame nat CrawlProgress
  | CrawlSettled nat "thrown + string list"
  | CacheGetSettled nat "thrown + CachedAnalysis option"
  | AuditProgress nat string
  | SeoProgress nat string
  | FanoutSettled nat "thrown + (SitewideAnalysis \<times> SeoAnalysisResult \<times> GroundingSource list)"
  | CacheSetSettled nat "thrown + unit"
  | PlanProgress nat string
  | PlanSettled nat "thrown + DailyActionPlan list"
  | SummarySettled nat "thrown + ExecutiveSummary" bool

section \<open>Stage catalog and state store\<close>

definition MAX_URLS_FOR_ANALYSIS :: nat where
  "MAX_URLS_FOR_ANALYSIS = 100"

definition PIPELINE_STAGE_DEFINITIONS :: "(string \<times> string \<times> string) list" where
  "PIPELINE_STAGE_DEFINITIONS =
    [(''crawl'', ''Sitemap Discovery'', ''Crawling sitemaps in parallel to extract all page URLs''),
     (''rank'', ''URL Prioritization'', ''Scoring and ranking URLs by strategic SEO value''),
     (''competitor'', ''Competitor Intelligence'', ''Analyzing competitor content gaps and strategies''),
     (''technical'', ''Technical Health Scan'', ''Auditing site architecture, speed, and crawlability''),
     (''content'', ''Content Analysis'', ''Evaluating on-page SEO factors and content quality''),
     (''actionplan'', ''Action Plan Generation'', ''Creating prioritized implementation roadmap''),
     (''summary'', ''Executive Synthesis'', ''Generating 80/20 executive summary with top priorities'')]"

text \<open>\<open>PIPELINE_STAGE_DEFINITIONS.map(s => ({ ...s, status: 'pending', progress: 0 }))\<close>\<close>

definition pendingStage :: "string \<times> string \<times> string \<Rightarrow> PipelineStage" where
  "pendingStage d = (case d of (i, n, ds) \<Rightarrow>
     \<lparr>sid = i, name = n, description = ds, status = Pending, progress = 0,
      itemsProcessed = None, totalItems = None, currentTask = None,
      startTime = None, endTime = None\<rparr>)"

definition freshStages :: "PipelineStage list" where
  "freshStages = map pendingStage PIPELINE_STAGE_DEFINITIONS"

definition emptyResults :: PartialResults where
  "emptyResults = \<lparr>sitewideAnalysis = None, seoAnalysis = None, executiveSummary = None,
     actionPlan = None, urlsDiscovered = None, urlsAnalyzed = None\<rparr>"

definition noUpdate :: StageUpdate where
  "noUpdate = \<lparr>u_status = None, u_progress = None, u_itemsProcessed = None,
     u_totalItems = None, u_currentTask = None, u_startTime = None, u_endTime = None\<rparr>"

definition orElse :: "'a option \<Rightarrow> 'a option \<Rightarrow> 'a option" where
  "orElse new old = (case new of None \<Rightarrow> old | Some v \<Rightarrow> Some v)"

text \<open>\<open>{ ...s, ...updates }\<close>\<close>

definition mergeStage :: "PipelineStage \<Rightarrow> StageUpdate \<Rightarrow> PipelineStage" where
  "mergeStage s u = s\<lparr>
     status := (case u_status u of None \<Rightarrow> status s | Some v \<Rightarrow> v),
     progress := (case u_progress u of None \<Rightarrow> progress s | Some v \<Rightarrow> v),
     itemsProcessed := orElse (u_itemsProcessed u) (itemsProcessed s),
     totalItems := orElse (u_totalItems u) (totalItems s),
     currentTask := orElse (u_currentTask u) (currentTask s),
     startTime := orElse (u_startTime u) (startTime s),
     endTime := orElse (u_endTime u) (endTime s)\<rparr>"

text \<open>\<open>{ ...prev, ...w }\<close> on the accumulator.\<close>

definition mergeResults :: "PartialResults \<Rightarrow> PartialResults \<Rightarrow> PartialResults" where
  "mergeResults prev w = \<lparr>
     sitewideAnalysis = orElse (sitewideAnalysis w) (sitewideAnalysis prev),
     seoAnalysis = orElse (seoAnalysis w) (seoAnalysis prev),
     executiveSummary = orElse (executiveSummary w) (executiveSummary prev),
     actionPlan = orElse (actionPlan w) (actionPlan prev),
     urlsDiscovered = orElse (urlsDiscovered w) (urlsDiscovered prev),
     urlsAnalyzed = orElse (urlsAnalyzed w) (urlsAnalyzed prev)\<rparr>"

text \<open>\<open>Date.now()\<close>: the next reading of the clock.\<close>

definition next_tick :: "nat list \<Rightarrow> nat" where
  "next_tick ts = (case ts of [] \<Rightarrow> 0 | d # _ \<Rightarrow> d)"

definition Date_now :: "app \<Rightarrow> nat \<times> app" where
  "Date_now s = (let t = clock s + next_tick (ticks s)
                 in (t, s\<lparr>clock := t, ticks := tl (ticks s)\<rparr>))"

definition updateStage :: "string \<Rightarrow> StageUpdate \<Rightarrow> app \<Rightarrow> app" where
  "updateStage stageId updates s =
     s\<lparr>pipelineStages :=
         map (\<lambda>st. if sid st = stageId then mergeStage st updates else st) (pipelineStages s)\<rparr>"

text \<open>\<open>addLog\<close>; the timestamp is read when \<open>addLog\<close> is called.\<close>

definition addLog :: "string \<Rightarrow> LogType \<Rightarrow> string option \<Rightarrow> app \<Rightarrow> app" where
  "addLog msg ty stg s = (case Date_now s of (t, s1) \<Rightarrow>
     s1\<lparr>activityLog := activityLog s1 @
          [\<lparr>timestamp = t, message = msg, ltype = ty, stage = stg\<rparr>]\<rparr>)"

text \<open>\<open>setAnalysisStartTime(Date.now())\<close>\<close>

definition stampAnalysisStart :: "app \<Rightarrow> app" where
  "stampAnalysisStart s = (case Date_now s of (t, s1) \<Rightarrow> s1\<lparr>analysisStartTime := t\<rparr>)"

definition resetPipeline :: "app \<Rightarrow> app" where
  "resetPipeline s =
     stampAnalysisStart
       (s\<lparr>pipelineStages := freshStages, activityLog := [], partialResults := emptyResults,
          partialWrites := []\<rparr>)"

text \<open>\<open>setPartialResults(prev => ({ ...prev, ...w }))\<close> and \<open>setPartialResults(w)\<close>.\<close>

definition mergePartialResults :: "PartialResults \<Rightarrow> app \<Rightarrow> app" where
  "mergePartialResults w s =
     s\<lparr>partialResults := mergeResults (partialResults s) w,
       partialWrites := partialWrites s @ [w]\<rparr>"

definition replacePartialResults :: "PartialResults \<Rightarrow> app \<Rightarrow> app" where
  "replacePartialResults w s =
     s\<lparr>partialResults := w, partialWrites := partialWrites s @ [w]\<rparr>"

text \<open>\<open>setPipelineStages(prev => prev.map(s => s.status === 'running' ? { ...s, status: 'error' } : s))\<close>,
  in \<open>handleCancelAnalysis\<close> and in the \<open>catch\<close> of \<open>handleSubmit\<close>.\<close>

definition failRunningStages :: "app \<Rightarrow> app" where
  "failRunningStages s =
     s\<lparr>pipelineStages :=
         map (\<lambda>st. if status st = Running then st\<lparr>status := Error\<rparr> else st) (pipelineStages s)\<rparr>"

text \<open>The three shapes of update that \<open>handleSubmit\<close> passes to \<open>updateStage\<close>, each with
  its \<open>Date.now()\<close> read when the object literal is built.\<close>

definition startStage :: "string \<Rightarrow> string \<Rightarrow> app \<Rightarrow> app" where
  "startStage stageId task s = (case Date_now s of (t, s1) \<Rightarrow>
     updateStage stageId
       (noUpdate\<lparr>u_status := Some Running, u_startTime := Some t, u_currentTask := Some task\<rparr>) s1)"

definition completeStage :: "string \<Rightarrow> app \<Rightarrow> app" where
  "completeStage stageId s = (case Date_now s of (t, s1) \<Rightarrow>
     updateStage stageId
       (noUpdate\<lparr>u_status := Some Complete, u_progress := Some 100, u_endTime := Some t\<rparr>) s1)"

definition taskStage :: "string \<Rightarrow> string \<Rightarrow> app \<Rightarrow> app" where
  "taskStage stageId msg s = updateStage stageId (noUpdate\<lparr>u_currentTask := Some msg\<rparr>) s"

section \<open>JavaScript numbers\<close>

text \<open>
  A finite double is \<open>m * 2 ^ e\<close> for integers \<open>m\<close> and \<open>e\<close>; the pair \<open>(m, e)\<close> stands for it.
  \<open>roundQuotient p q\<close> is the double nearest to the quotient \<open>p / q\<close> of two integers
  (\<open>q > 0\<close>): 53 significant bits, and of two nearest doubles the one with the even
  significand (round to nearest, ties to even, the rounding of \<open>/\<close> and \<open>*\<close> on numbers).
  The exponent range of binary64 is not modelled; the quotient of two integers below
  \<open>2 ^ 53\<close> in magnitude and its product with 100 lie well inside it. An integer below
  \<open>2 ^ 53\<close> in magnitude is a double as it stands.
\<close>

text \<open>\<open>ilog2 n\<close> is the position of the leading bit of \<open>n\<close>.\<close>

function ilog2 :: "int \<Rightarrow> int" where
  "ilog2 n = (if n < 2 then 0 else 1 + ilog2 (n div 2))"
  by auto

termination ilog2
  by (relation "measure nat") auto

declare ilog2.simps [simp del]

text \<open>The integer nearest to \<open>p / q\<close>, the even one of two.\<close>

definition roundDiv :: "int \<Rightarrow> int \<Rightarrow> int" where
  "roundDiv p q = (let f = p div q; r = p mod q in
     if 2 * r < q then f else if q < 2 * r then f + 1 else if even f then f else f + 1)"

text \<open>The binary exponent of \<open>p / q\<close> for positive \<open>p\<close> and \<open>q\<close>: the \<open>e\<close> with
  \<open>2 ^ e \<le> p / q < 2 ^ (e + 1)\<close>.\<close>

definition exponentOf :: "int \<Rightarrow> int \<Rightarrow> int" where
  "exponentOf p q = (let e = ilog2 p - ilog2 q in
     if (if 0 \<le> e then p < q * 2 ^ nat e else p * 2 ^ nat (- e) < q) then e - 1 else e)"

definition roundQuotient :: "int \<Rightarrow> int \<Rightarrow> int \<times> int" where
  "roundQuotient p q = (if p = 0 then (0, 0) else
     (let e = exponentOf \<bar>p\<bar> q - 52;
          m = (if 0 \<le> e then roundDiv \<bar>p\<bar> (q * 2 ^ nat e) else roundDiv (\<bar>p\<bar> * 2 ^ nat (- e)) q)
      in (sgn p * m, e)))"

definition valueOf :: "int \<times> int \<Rightarrow> rat" where
  "valueOf d = (case d of (m, e) \<Rightarrow> of_int m * 2 powi e)"

text \<open>\<open>a / b\<close> on two integers, and \<open>d * n\<close> on a double and an integer.\<close>

definition js_divide :: "int \<Rightarrow> int \<Rightarrow> int \<times> int" where
  "js_divide a b = roundQuotient a b"

definition js_times :: "int \<times> int \<Rightarrow> int \<Rightarrow> int \<times> int" where
  "js_times d n = (case d of (m, e) \<Rightarrow>
     (case roundQuotient (m * n) 1 of (m', e') \<Rightarrow> (m', e' + e)))"

section \<open>String helpers\<close>

text \<open>Decimal rendering of a number inside a template literal.\<close>

fun string_of_nat :: "nat \<Rightarrow> string" where
  "string_of_nat n =
     (if n < 10 then [char_of (48 + n)]
      else string_of_nat (n div 10) @ [char_of (48 + n mod 10)])"

declare string_of_nat.simps [simp del]

text \<open>\<open>toLowerCase\<close> and \<open>includes\<close> on the ASCII range.\<close>

definition toLowerCase :: "string \<Rightarrow> string" where
  "toLowerCase = map (\<lambda>c. if (65::nat) \<le> of_char c \<and> of_char c \<le> (90::nat)
                            then char_of (of_char c + (32::nat)) else c)"

fun startsWith :: "string \<Rightarrow> string \<Rightarrow> bool" where
  "startsWith _ [] = True"
| "startsWith [] (_ # _) = False"
| "startsWith (c # cs) (p # ps) = (c = p \<and> startsWith cs ps)"

fun includes_str :: "string \<Rightarrow> string \<Rightarrow> bool" where
  "includes_str [] p = (p = [])"
| "includes_str (c # cs) p = (startsWith (c # cs) p \<or> includes_str cs p)"

text \<open>\<open>data.competitorSitemaps.split('\n').map(u => u.trim()).filter(Boolean)\<close>\<close>

fun splitLines :: "string \<Rightarrow> string list" where
  "splitLines [] = [[]]"
| "splitLines (c # cs) =
     (if c = CHR 0x0A then [] # splitLines cs
      else (case splitLines cs of [] \<Rightarrow> [[c]] | l # ls \<Rightarrow> (c # l) # ls))"

definition isSpace :: "char \<Rightarrow> bool" where
  "isSpace c = (c \<in> set [CHR '' '', CHR 0x09, CHR 0x0A, CHR 0x0B, CHR 0x0C, CHR 0x0D])"

definition trim :: "string \<Rightarrow> string" where
  "trim u = rev (dropWhile isSpace (rev (dropWhile isSpace u)))"

definition competitorUrlsOf :: "string \<Rightarrow> string list" where
  "competitorUrlsOf txt = filter (\<lambda>u. u \<noteq> []) (map trim (splitLines txt))"

section \<open>The handlers of the App component\<close>

text \<open>\<open>handleCancelAnalysis\<close>, lines 183-195. The signal of the controller is handed to
  no collaborator; aborting it only flips the flag.\<close>

definition handleCancelAnalysis :: "app \<Rightarrow> app" where
  "handleCancelAnalysis s =
     (let s1 = s\<lparr>isCancelling := True\<rparr>;
          s2 = s1\<lparr>abortController := map_option (\<lambda>_. True) (abortController s1)\<rparr>;
          s3 = addLog ''Analysis cancelled by user'' Warning None s2;
          s4 = failRunningStages s3;
          s5 = s4\<lparr>appState := AppIdle\<rparr>;
          s6 = s5\<lparr>isCancelling := False\<rparr>
      in resetPipeline s6)"

text \<open>\<open>handleNewAnalysis\<close>, lines 164-169.\<close>

definition handleNewAnalysis :: "app \<Rightarrow> app" where
  "handleNewAnalysis s =
     resetPipeline
       (s\<lparr>selectedAnalysisId := None,
          appState := (case aiConfig s of None \<Rightarrow> AppConfigureAi | Some _ \<Rightarrow> AppIdle),
          error := None\<rparr>)"

text \<open>\<open>handleAiConfigChange\<close>, lines 171-175 (the copy of the configuration in
  \<open>localStorage\<close> is not modelled).\<close>

definition handleAiConfigChange :: "AiConfig \<Rightarrow> app \<Rightarrow> app" where
  "handleAiConfigChange config s = s\<lparr>aiConfig := Some config, appState := AppIdle\<rparr>"

text \<open>The start of \<open>handleSubmit\<close>, lines 198-237, up to the call of \<open>crawlSitemap\<close>.
  \<open>parsed\<close> is what \<open>new URL(data.sitemapUrl)\<close> gives: \<open>None\<close> when it throws.\<close>

definition handleSubmit :: "WizardSubmitData \<Rightarrow> string option \<Rightarrow> app \<Rightarrow> app" where
  "handleSubmit data parsed s =
     (if d_sitemapUrl data = [] then
        s\<lparr>error := Some ''Please enter your sitemap.xml URL.'', appState := AppError\<rparr>
      else case aiConfig s of
        None \<Rightarrow> s\<lparr>error := Some ''AI Provider is not configured.'', appState := AppConfigureAi\<rparr>
      | Some cfg \<Rightarrow>
        (case parsed of
           None \<Rightarrow>
             s\<lparr>error := Some ''Please enter a valid sitemap URL (e.g., https://example.com/sitemap.xml).'',
               appState := AppError\<rparr>
         | Some initialSitemapUrl \<Rightarrow>
             (let competitorUrls = competitorUrlsOf (d_competitorSitemaps data);
                  act = \<lparr>a_data = data, a_aiConfig = cfg, a_history = analysisHistory s,
                         a_isCancelling = isCancelling s, a_competitorUrls = competitorUrls,
                         a_fanoutIssued = False, a_planIssued = False, a_pc = AwaitCrawl\<rparr>;
                  s1 = s\<lparr>abortController := Some False, appState := AppLoading,
                         loadingPhase := Crawling, error := None,
                         selectedAnalysisId := None, crawlProgress := None\<rparr>;
                  s2 = resetPipeline s1;
                  s3 = stampAnalysisStart s2;
                  s4 = addLog ''Starting sitemap discovery...'' Info (Some ''crawl'') s3;
                  s5 = startStage ''crawl'' ''Initializing parallel crawler...'' s4
              in s5\<lparr>runs := runs s5 @ [act]\<rparr>)))"

text \<open>The body of the \<open>requestAnimationFrame\<close> callback of the crawler's progress
  callback, lines 239-246.\<close>

text \<open>\<open>progress.total > 0 ? (progress.count / progress.total) * 100 : 0\<close>\<close>

definition progressPercent :: "CrawlProgress \<Rightarrow> rat" where
  "progressPercent p =
     (if p_total p > 0 then valueOf (js_times (js_divide (p_count p) (p_total p)) 100) else 0)"

definition crawlFrame :: "CrawlProgress \<Rightarrow> app \<Rightarrow> app" where
  "crawlFrame p s =
     updateStage ''crawl''
       (noUpdate\<lparr>u_progress := Some (progressPercent p),
                 u_itemsProcessed := Some (p_count p),
                 u_totalItems := Some (p_total p),
                 u_currentTask := Some (''Processing '' @
                    (case p_currentSitemap p of None \<Rightarrow> ''sitemap'' | Some [] \<Rightarrow> ''sitemap''
                     | Some (c # cs) \<Rightarrow> c # cs) @ ''...'')\<rparr>)
       (s\<lparr>crawlProgress := Some p\<rparr>)"

text \<open>The progress callbacks of the analyzers, lines 346-354, 362-365, 281-284 and 391-394.\<close>

definition auditProgress :: "string \<Rightarrow> app \<Rightarrow> app" where
  "auditProgress msg s =
     (if includes_str (toLowerCase msg) ''competitor''
      then addLog msg Ai (Some ''competitor'') (taskStage ''competitor'' msg s)
      else addLog msg Ai (Some ''technical'') (taskStage ''technical'' msg s))"

definition seoProgress :: "string \<Rightarrow> app \<Rightarrow> app" where
  "seoProgress msg s = addLog msg Ai (Some ''content'') (taskStage ''content'' msg s)"

definition planProgress :: "string \<Rightarrow> app \<Rightarrow> app" where
  "planProgress msg s = addLog msg Ai (Some ''actionplan'') (taskStage ''actionplan'' msg s)"

text \<open>\<open>e instanceof Error ? e.message : 'An unexpected error occurred.'\<close>\<close>

definition errorMessageOf :: "thrown \<Rightarrow> string" where
  "errorMessageOf e = (case e of ErrorObj m \<Rightarrow> m | NonError \<Rightarrow> ''An unexpected error occurred.'')"

text \<open>The \<open>catch\<close> block, lines 436-446.\<close>

definition onRejected :: "activation \<Rightarrow> thrown \<Rightarrow> app \<Rightarrow> app" where
  "onRejected a e s =
     (if a_isCancelling a then s
      else
        (let errorMessage = errorMessageOf e;
             s1 = s\<lparr>error := Some errorMessage\<rparr>;
             s2 = addLog (''Analysis failed: '' @ errorMessage) LogError None s1;
             s3 = failRunningStages s2
         in s3\<lparr>appState := AppError\<rparr>))"

text \<open>Lines 250-263: after \<open>await crawlSitemap(...)\<close>. A segment returns the exception it
  throws (\<open>Inl\<close>) or the next suspension point (\<open>Inr\<close>), with the state it leaves.\<close>

definition afterCrawl :: "string list \<Rightarrow> app \<Rightarrow> (thrown + pc) \<times> app" where
  "afterCrawl allPageUrls s =
     (let s1 = completeStage ''crawl'' s;
          s2 = addLog (''Discovered '' @ string_of_nat (length allPageUrls) @ '' URLs'')
                 Success (Some ''crawl'') s1;
          s3 = mergePartialResults (emptyResults\<lparr>urlsDiscovered := Some (length allPageUrls)\<rparr>) s2
      in if length allPageUrls = 0 then
           (Inl (ErrorObj ''Crawl complete, but no URLs were found. Your sitemap might be empty or in a format that could not be parsed.''), s3)
         else
           (let s4 = s3\<lparr>loadingPhase := Analyzing, crawlProgress := None\<rparr>;
                s5 = addLog ''Checking for cached analysis...'' Info None s4
            in (Inr (AwaitCacheGet allPageUrls), s5)))"

text \<open>Lines 265-281: the cache answered with an analysis.\<close>

definition afterCacheHit :: "string list \<Rightarrow> CachedAnalysis \<Rightarrow> app \<Rightarrow> (thrown + pc) \<times> app" where
  "afterCacheHit urlsFromSitemap cachedAnalysis s =
     (let s1 = addLog ''Cache hit! Using cached analysis...'' Success None s;
          s2 = foldl (\<lambda>s' stageId. completeStage stageId s') s1
                 [''rank'', ''competitor'', ''technical'', ''content''];
          s3 = replacePartialResults
                 (emptyResults\<lparr>urlsDiscovered := Some (length urlsFromSitemap),
                                sitewideAnalysis := Some (c_sitewide cachedAnalysis),
                                seoAnalysis := Some (c_seo cachedAnalysis)\<rparr>) s2;
          s4 = addLog ''Generating fresh action plan from cache...'' Ai (Some ''actionplan'') s3;
          s5 = startStage ''actionplan'' ''Creating implementation roadmap...'' s4
      in (Inr (HitAwaitPlan cachedAnalysis), s5))"

text \<open>Lines 321-339: no cached analysis; \<open>rankUrls\<close> (./utils/seoScoring, synchronous) is a
  parameter.\<close>

definition afterCacheMiss ::
  "(string list \<Rightarrow> string list) \<Rightarrow> string list \<Rightarrow> app \<Rightarrow> (thrown + pc) \<times> app" where
  "afterCacheMiss rankUrls urlsFromSitemap s =
     (let s1 = addLog ''No valid cache found, running full analysis...'' Info None s;
          s2 = addLog ''Prioritizing URLs by SEO value...'' Info (Some ''rank'') s1;
          s3 = startStage ''rank'' ''Scoring URL importance...'' s2;
          rankedUrls = rankUrls urlsFromSitemap;
          inputUrls = take MAX_URLS_FOR_ANALYSIS rankedUrls;
          s4 = completeStage ''rank'' s3;
          s5 = addLog (''Ranked '' @ string_of_nat (length rankedUrls) @ '' URLs, analyzing top ''
                        @ string_of_nat (length inputUrls)) Success (Some ''rank'') s4;
          s6 = mergePartialResults (emptyResults\<lparr>urlsAnalyzed := Some (length inputUrls)\<rparr>) s5;
          s7 = addLog ''Starting parallel AI analysis engines...'' Ai None s6;
          s8 = startStage ''competitor'' ''Analyzing competitor sitemaps...'' s7;
          s9 = startStage ''technical'' ''Auditing technical health...'' s8;
          s10 = startStage ''content'' ''Evaluating content quality...'' s9
      in (Inr (AwaitFanout urlsFromSitemap), s10))"

text \<open>Lines 369-382: \<open>Promise.all\<close> fulfilled.\<close>

definition afterFanout ::
  "SitewideAnalysis \<Rightarrow> SeoAnalysisResult \<Rightarrow> GroundingSource list \<Rightarrow> app \<Rightarrow> (thrown + pc) \<times> app" where
  "afterFanout sitewide analysis srcs s =
     (let s1 = completeStage ''competitor'' s;
          s2 = completeStage ''technical'' s1;
          s3 = completeStage ''content'' s2;
          s4 = addLog ''Sitewide audit complete'' Success (Some ''technical'') s3;
          s5 = addLog ''Content analysis complete'' Success (Some ''content'') s4;
          s6 = mergePartialResults
                 (emptyResults\<lparr>sitewideAnalysis := Some sitewide, seoAnalysis := Some analysis\<rparr>) s5;
          s7 = addLog ''Caching analysis for future use...'' Info None s6
      in (Inr (AwaitCacheSet sitewide analysis srcs), s7))"

text \<open>Lines 384-391: \<open>cacheService.setAnalysis\<close> fulfilled.\<close>

definition afterCacheSet ::
  "SitewideAnalysis \<Rightarrow> SeoAnalysisResult \<Rightarrow> GroundingSource list \<Rightarrow> app \<Rightarrow> (thrown + pc) \<times> app" where
  "afterCacheSet sitewide analysis srcs s =
     (let s1 = addLog ''Generating implementation roadmap...'' Ai (Some ''actionplan'') s;
          s2 = startStage ''actionplan'' ''Creating daily action items...'' s1
      in (Inr (AwaitPlan sitewide analysis srcs), s2))"

text \<open>Lines 286-293 (cache hit) and 396-407 (cache miss): the action plan arrived. The two
  copies differ in two message texts.\<close>

definition afterPlan :: "string \<Rightarrow> string \<Rightarrow> DailyActionPlan list \<Rightarrow> app \<Rightarrow> app" where
  "afterPlan doneMsg task plan s =
     (let s1 = completeStage ''actionplan'' s;
          s2 = addLog doneMsg Success (Some ''actionplan'') s1;
          s3 = mergePartialResults (emptyResults\<lparr>actionPlan := Some plan\<rparr>) s2;
          s4 = addLog ''Synthesizing executive summary...'' Ai (Some ''summary'') s3
      in startStage ''summary'' task s4)"

text \<open>\<open>[newAnalysis, ...analysisHistory].slice(0, 10)\<close>\<close>

definition updatedHistoryOf :: "HistoricalAnalysis \<Rightarrow> HistoricalAnalysis list \<Rightarrow> HistoricalAnalysis list" where
  "updatedHistoryOf newAnalysis hist = take 10 (newAnalysis # hist)"

text \<open>Lines 299-318 and 415-434: the record is built (two clock readings, for \<open>id\<close> and
  \<open>date\<close>), the history is replaced and written to \<open>localStorage\<close>; \<open>storageOk\<close> says
  whether \<open>localStorage.setItem\<close> returns instead of throwing (the exception is caught and
  only logged to the console).\<close>

definition newAnalysisOf ::
  "activation \<Rightarrow> nat \<Rightarrow> nat \<Rightarrow> SitewideAnalysis \<Rightarrow> SeoAnalysisResult \<Rightarrow> GroundingSource list \<Rightarrow>
   DailyActionPlan list \<Rightarrow> ExecutiveSummary \<Rightarrow> HistoricalAnalysis" where
  "newAnalysisOf a t1 t2 sitewide analysis srcs plan summary =
     \<lparr>h_id = t1, h_date = t2, h_sitemapUrl = d_url (a_data a),
      h_competitorSitemaps = a_competitorUrls a,
      h_sitewideAnalysis = sitewide, h_analysis = analysis, h_sources = srcs,
      h_analysisType = d_analysisType (a_data a),
      h_location = d_targetLocation (a_data a),
      h_actionPlan = plan, h_executiveSummary = summary\<rparr>"

definition finalize ::
  "activation \<Rightarrow> SitewideAnalysis \<Rightarrow> SeoAnalysisResult \<Rightarrow> GroundingSource list \<Rightarrow>
   DailyActionPlan list \<Rightarrow> ExecutiveSummary \<Rightarrow> bool \<Rightarrow> app \<Rightarrow> app" where
  "finalize a sitewide analysis srcs plan summary storageOk s =
     (case Date_now s of (t1, s1) \<Rightarrow>
      case Date_now s1 of (t2, s2) \<Rightarrow>
        (let newAnalysis = newAnalysisOf a t1 t2 sitewide analysis srcs plan summary;
             updatedHistory = updatedHistoryOf newAnalysis (a_history a);
             s3 = s2\<lparr>analysisHistory := updatedHistory\<rparr>;
             s4 = (if storageOk then s3\<lparr>storedHistory := Some updatedHistory\<rparr> else s3)
         in s4\<lparr>selectedAnalysisId := Some (h_id newAnalysis), appState := AppResults\<rparr>))"

text \<open>Lines 295-318: the summary arrived on the cache-hit path.\<close>

definition afterSummaryHit ::
  "activation \<Rightarrow> CachedAnalysis \<Rightarrow> DailyActionPlan list \<Rightarrow> ExecutiveSummary \<Rightarrow> bool \<Rightarrow> app
   \<Rightarrow> (thrown + pc) \<times> app" where
  "afterSummaryHit a cachedAnalysis plan summary storageOk s =
     (let s1 = completeStage ''summary'' s;
          s2 = addLog ''Executive summary complete'' Success (Some ''summary'') s1;
          s3 = mergePartialResults (emptyResults\<lparr>executiveSummary := Some summary\<rparr>) s2
      in (Inr Returned,
          finalize a (c_sitewide cachedAnalysis) (c_seo cachedAnalysis) [] plan summary storageOk s3))"

text \<open>Lines 409-434: the summary arrived on the cache-miss path.\<close>

definition afterSummaryMiss ::
  "activation \<Rightarrow> SitewideAnalysis \<Rightarrow> SeoAnalysisResult \<Rightarrow> GroundingSource list \<Rightarrow>
   DailyActionPlan list \<Rightarrow> ExecutiveSummary \<Rightarrow> bool \<Rightarrow> app \<Rightarrow> (thrown + pc) \<times> app" where
  "afterSummaryMiss a sitewide analysis srcs plan summary storageOk s =
     (let s1 = completeStage ''summary'' s;
          s2 = addLog ''Executive summary complete'' Success (Some ''summary'') s1;
          s3 = mergePartialResults (emptyResults\<lparr>executiveSummary := Some summary\<rparr>) s2;
          s4 = addLog ''Analysis complete! Building final report...'' Success None s3
      in (Inr Returned, finalize a sitewide analysis srcs plan summary storageOk s4))"

section \<open>The run as a transition system\<close>

definition launchesFanout :: "pc \<Rightarrow> bool" where
  "launchesFanout p = (case p of AwaitFanout _ \<Rightarrow> True | _ \<Rightarrow> False)"

definition launchesPlan :: "pc \<Rightarrow> bool" where
  "launchesPlan p = (case p of HitAwaitPlan _ \<Rightarrow> True | AwaitPlan _ _ _ \<Rightarrow> True | _ \<Rightarrow> False)"

text \<open>An activation leaves a segment: by an exception, which the \<open>catch\<close> block handles
  before the function returns, or by suspending at the next \<open>await\<close>.\<close>

definition settle :: "nat \<Rightarrow> activation \<Rightarrow> (thrown + pc) \<times> app \<Rightarrow> app" where
  "settle k a r = (case r of
       (Inl e, s) \<Rightarrow>
         (let s1 = onRejected a e s in s1\<lparr>runs := (runs s1)[k := a\<lparr>a_pc := Returned\<rparr>]\<rparr>)
     | (Inr p, s) \<Rightarrow>
         s\<lparr>runs := (runs s)[k := a\<lparr>a_pc := p,
                                   a_fanoutIssued := (a_fanoutIssued a \<or> launchesFanout p),
                                   a_planIssued := (a_planIssued a \<or> launchesPlan p)\<rparr>]\<rparr>)"

text \<open>The awaited promise of activation \<open>k\<close> settles: a rejection is thrown at the
  \<open>await\<close>, a value resumes the function. A settlement that does not fit the place where
  the activation is suspended (\<open>None\<close>) is not an event of that activation.\<close>

definition awaited :: "thrown + 'v \<Rightarrow> ('v \<Rightarrow> app \<Rightarrow> (thrown + pc) \<times> app) \<Rightarrow> app \<Rightarrow> (thrown + pc) \<times> app" where
  "awaited r cont s = (case r of Inl e \<Rightarrow> (Inl e, s) | Inr v \<Rightarrow> cont v s)"

definition resume :: "nat \<Rightarrow> (activation \<Rightarrow> (app \<Rightarrow> (thrown + pc) \<times> app) option) \<Rightarrow> app \<Rightarrow> app" where
  "resume k f s =
     (if k < length (runs s) then
        (let a = runs s ! k in case f a of None \<Rightarrow> s | Some seg \<Rightarrow> settle k a (seg s))
      else s)"

text \<open>A progress callback of activation \<open>k\<close> runs, if that activation has issued the call
  (\<open>issued\<close>) that received the callback.\<close>

definition callback :: "nat \<Rightarrow> (activation \<Rightarrow> bool) \<Rightarrow> (app \<Rightarrow> app) \<Rightarrow> app \<Rightarrow> app" where
  "callback k issued f s =
     (if k < length (runs s) \<and> issued (runs s ! k) then f s else s)"

text \<open>One event. The user interface offers submission, cancellation and
  \<open>Start New Analysis\<close> only on some screens; the transition system accepts them in every
  state.\<close>

definition step :: "(string list \<Rightarrow> string list) \<Rightarrow> event \<Rightarrow> app \<Rightarrow> app" where
  "step rankUrls ev s = (case ev of
       Submit data parsed \<Rightarrow> handleSubmit data parsed s
     | Cancel \<Rightarrow> handleCancelAnalysis s
     | NewAnalysis \<Rightarrow> handleNewAnalysis s
     | AiConfigChange config \<Rightarrow> handleAiConfigChange config s
     | CrawlFrame k p \<Rightarrow> callback k (\<lambda>_. True) (crawlFrame p) s
     | AuditProgress k msg \<Rightarrow> callback k a_fanoutIssued (auditProgress msg) s
     | SeoProgress k msg \<Rightarrow> callback k a_fanoutIssued (seoProgress msg) s
     | PlanProgress k msg \<Rightarrow> callback k a_planIssued (planProgress msg) s
     | CrawlSettled k r \<Rightarrow>
         resume k (\<lambda>a. case a_pc a of
             AwaitCrawl \<Rightarrow> Some (awaited r afterCrawl)
           | _ \<Rightarrow> None) s
     | CacheGetSettled k r \<Rightarrow>
         resume k (\<lambda>a. case a_pc a of
             AwaitCacheGet urls \<Rightarrow>
               Some (awaited r (\<lambda>cachedAnalysis. case cachedAnalysis of
                       Some c \<Rightarrow> afterCacheHit urls c
                     | None \<Rightarrow> afterCacheMiss rankUrls urls))
           | _ \<Rightarrow> None) s
     | FanoutSettled k r \<Rightarrow>
         resume k (\<lambda>a. case a_pc a of
             AwaitFanout urls \<Rightarrow>
               Some (awaited r (\<lambda>v. case v of (sitewide, analysis, srcs) \<Rightarrow>
                       afterFanout sitewide analysis srcs))
           | _ \<Rightarrow> None) s
     | CacheSetSettled k r \<Rightarrow>
         resume k (\<lambda>a. case a_pc a of
             AwaitCacheSet sitewide analysis srcs \<Rightarrow>
               Some (awaited r (\<lambda>_. afterCacheSet sitewide analysis srcs))
           | _ \<Rightarrow> None) s
     | PlanSettled k r \<Rightarrow>
         resume k (\<lambda>a. case a_pc a of
             HitAwaitPlan c \<Rightarrow>
               Some (awaited r (\<lambda>plan s'.
                       (Inr (HitAwaitSummary c plan),
                        afterPlan ''Action plan generated'' ''Creating 80/20 analysis...'' plan s')))
           | AwaitPlan sitewide analysis srcs \<Rightarrow>
               Some (awaited r (\<lambda>plan s'.
                       (Inr (AwaitSummary sitewide analysis srcs plan),
                        afterPlan ''Action plan generated successfully''
                          ''Generating 80/20 analysis...'' plan s')))
           | _ \<Rightarrow> None) s
     | SummarySettled k r storageOk \<Rightarrow>
         resume k (\<lambda>a. case a_pc a of
             HitAwaitSummary c plan \<Rightarrow>
               Some (awaited r (\<lambda>summary. afterSummaryHit a c plan summary storageOk))
           | AwaitSummary sitewide analysis srcs plan \<Rightarrow>
               Some (awaited r (\<lambda>summary.
                       afterSummaryMiss a sitewide analysis srcs plan summary storageOk))
           | _ \<Rightarrow> None) s)"

text \<open>A segment given by the state it leaves and the place where the activation is suspended
  next.\<close>

definition thenSuspend :: "pc \<Rightarrow> (app \<Rightarrow> app) \<Rightarrow> app \<Rightarrow> (thrown + pc) \<times> app" where
  "thenSuspend p f s = (Inr p, f s)"

definition run_all :: "(string list \<Rightarrow> string list) \<Rightarrow> event list \<Rightarrow> app \<Rightarrow> app" where
  "run_all rankUrls evs s = foldl (\<lambda>s' ev. step rankUrls ev s') s evs"

text \<open>The state after mounting: the initial values of the \<open>useState\<close> cells, with the
  configuration and the history that the mount effect found in \<open>localStorage\<close>
  (lines 139-162), no controller, and no activation of \<open>handleSubmit\<close>.\<close>

definition mounted :: "AiConfig option \<Rightarrow> HistoricalAnalysis list option \<Rightarrow> nat \<Rightarrow> nat list \<Rightarrow> app" where
  "mounted config stored t0 tks =
     (let hist = (case stored of None \<Rightarrow> [] | Some h \<Rightarrow> h) in
      \<lparr>error = None, analysisHistory = hist,
       selectedAnalysisId = (case (hist, config) of (h # _, Some _) \<Rightarrow> Some (h_id h) | _ \<Rightarrow> None),
       appState = (case config of None \<Rightarrow> AppConfigureAi
                   | Some _ \<Rightarrow> (case hist of [] \<Rightarrow> AppIdle | _ # _ \<Rightarrow> AppResults)),
       loadingPhase = Crawling, crawlProgress = None,
       pipelineStages = freshStages, activityLog = [], partialResults = emptyResults,
       analysisStartTime = t0, aiConfig = config, isCancelling = False,
       abortController = None, storedHistory = stored,
       clock = t0, ticks = tks, runs = [], partialWrites = []\<rparr>)"

text \<open>Reading the stages by id, as the claims name them.\<close>

definition stageOf :: "string \<Rightarrow> app \<Rightarrow> PipelineStage option" where
  "stageOf stageId s = find (\<lambda>st. sid st = stageId) (pipelineStages s)"

definition statuses :: "app \<Rightarrow> (string \<times> PipelineStageStatus) list" where
  "statuses s = map (\<lambda>st. (sid st, status st)) (pipelineStages s)"

section \<open>Predicates used by the statements and their proofs\<close>

definition isSubmit :: "event \<Rightarrow> bool" where
  "isSubmit ev = (case ev of Submit _ _ \<Rightarrow> True | _ \<Rightarrow> False)"

text \<open>Events of the collaborators only: no submission, cancellation, reset or
  reconfiguration by the user.\<close>

definition isCollaborator :: "event \<Rightarrow> bool" where
  "isCollaborator ev = (case ev of
       Submit _ _ \<Rightarrow> False | Cancel \<Rightarrow> False | NewAnalysis \<Rightarrow> False | AiConfigChange _ \<Rightarrow> False
     | _ \<Rightarrow> True)"

definition noSkipped :: "app \<Rightarrow> bool" where
  "noSkipped s = (\<forall>st \<in> set (pipelineStages s). status st \<noteq> Skipped)"

text \<open>Every stage has a start time while it runs and after it failed, an end time once it is
  complete, the end not before the start when both are there, and no time lies in the
  future of the clock.\<close>

definition timesOk :: "app \<Rightarrow> bool" where
  "timesOk s = (\<forall>st \<in> set (pipelineStages s).
      (status st = Running \<longrightarrow> startTime st \<noteq> None) \<and>
      (status st = Error \<longrightarrow> startTime st \<noteq> None) \<and>
      (status st = Complete \<longrightarrow> endTime st \<noteq> None) \<and>
      (status st = Complete \<longrightarrow> (\<forall>a b. startTime st = Some a \<longrightarrow> endTime st = Some b \<longrightarrow> a \<le> b)) \<and>
      (\<forall>a. startTime st = Some a \<longrightarrow> a \<le> clock s) \<and>
      (\<forall>b. endTime st = Some b \<longrightarrow> b \<le> clock s))"

text \<open>A submission and a freshly mounted application for the concrete scenarios.\<close>

definition exampleData :: WizardSubmitData where
  "exampleData = \<lparr>d_sitemapUrl = ''https://example.com/sitemap.xml'', d_url = ''https://example.com'',
     d_competitorSitemaps = [], d_analysisType = ''global'', d_targetLocation = []\<rparr>"

definition exampleApp :: app where
  "exampleApp = mounted (Some ''config'') None 1000 (replicate 60 5)"

definition exampleSubmit :: event where
  "exampleSubmit = Submit exampleData (Some ''https://example.com/sitemap.xml'')"

definition exampleCrawled :: "event list" where
  "exampleCrawled = [exampleSubmit, CrawlSettled 0 (Inr [''https://example.com/''])]"

definition exampleFanoutRunning :: app where
  "exampleFanoutRunning = run_all id (exampleCrawled @ [CacheGetSettled 0 (Inr None)]) exampleApp"

definition exampleFanoutFailed :: app where
  "exampleFanoutFailed =
     step id (FanoutSettled 0 (Inl (ErrorObj ''audit failed''))) exampleFanoutRunning"

definition exampleCacheHit :: app where
  "exampleCacheHit =
     run_all id (exampleCrawled @
       [CacheGetSettled 0 (Inr (Some \<lparr>c_sitewide = ''sitewide'', c_seo = ''seo''\<rparr>))]) exampleApp"

definition exampleQuarter :: app where
  "exampleQuarter = step id (CrawlFrame 0 \<lparr>p_count = 1, p_total = 4, p_currentSitemap = None\<rparr>)
       (step id exampleSubmit exampleApp)"

text \<open>The stages as the claims look at them: id, status, start and end time.\<close>

definition stageRow :: "PipelineStage \<Rightarrow> string \<times> PipelineStageStatus \<times> nat option \<times> nat option" where
  "stageRow st = (sid st, status st, startTime st, endTime st)"

definition stageTable :: "app \<Rightarrow> (string \<times> PipelineStageStatus \<times> nat option \<times> nat option) list" where
  "stageTable s = map stageRow (pipelineStages s)"

text \<open>The statuses under the elementary operations.\<close>

definition setStatus :: "string \<Rightarrow> PipelineStageStatus \<Rightarrow> (string \<times> PipelineStageStatus) list
    \<Rightarrow> (string \<times> PipelineStageStatus) list" where
  "setStatus i x = map (\<lambda>r. if fst r = i then (fst r, x) else r)"

definition allReturned :: "app \<Rightarrow> bool" where
  "allReturned s = (\<forall>a \<in> set (runs s). a_pc a = Returned)"

definition pendingStatuses :: "(string \<times> PipelineStageStatus) list" where
  "pendingStatuses =
     [(''crawl'', Pending), (''rank'', Pending), (''competitor'', Pending), (''technical'', Pending),
      (''content'', Pending), (''actionplan'', Pending), (''summary'', Pending)]"

definition isCallback :: "event \<Rightarrow> bool" where
  "isCallback ev = (case ev of CrawlFrame _ _ \<Rightarrow> True | AuditProgress _ _ \<Rightarrow> True
     | SeoProgress _ _ \<Rightarrow> True | PlanProgress _ _ \<Rightarrow> True | _ \<Rightarrow> False)"

definition tracked ::
  "nat \<Rightarrow> WizardSubmitData \<Rightarrow> HistoricalAnalysis list \<Rightarrow> pc \<Rightarrow>
   (string \<times> PipelineStageStatus) list \<Rightarrow> app \<Rightarrow> bool" where
  "tracked k d H p sts s =
     (length (runs s) = Suc k \<and> (\<forall>j < k. a_pc (runs s ! j) = Returned) \<and>
      a_pc (runs s ! k) = p \<and> a_data (runs s ! k) = d \<and> a_history (runs s ! k) = H \<and>
      a_competitorUrls (runs s ! k) = competitorUrlsOf (d_competitorSitemaps d) \<and>
      \<not> a_isCancelling (runs s ! k) \<and>
      statuses s = sts \<and> analysisHistory s = H \<and> \<not> isCancelling s \<and> aiConfig s \<noteq> None)"

definition anonymous :: "HistoricalAnalysis \<Rightarrow> HistoricalAnalysis" where
  "anonymous h = h\<lparr>h_id := 0, h_date := 0\<rparr>"

definition expectedRecord ::
  "WizardSubmitData \<Rightarrow> SitewideAnalysis \<Rightarrow> SeoAnalysisResult \<Rightarrow> GroundingSource list \<Rightarrow>
   DailyActionPlan list \<Rightarrow> ExecutiveSummary \<Rightarrow> HistoricalAnalysis" where
  "expectedRecord d sitewide analysis srcs plan summary =
     \<lparr>h_id = 0, h_date = 0, h_sitemapUrl = d_url d,
      h_competitorSitemaps = competitorUrlsOf (d_competitorSitemaps d),
      h_sitewideAnalysis = sitewide, h_analysis = analysis, h_sources = srcs,
      h_analysisType = d_analysisType d, h_location = d_targetLocation d,
      h_actionPlan = plan, h_executiveSummary = summary\<rparr>"

definition failRunning :: "(string \<times> PipelineStageStatus) list \<Rightarrow> (string \<times> PipelineStageStatus) list" where
  "failRunning = map (\<lambda>r. if snd r = Running then (fst r, Error) else r)"

text \<open>What a successful run leaves behind.\<close>

definition finished ::
  "nat \<Rightarrow> HistoricalAnalysis \<Rightarrow> HistoricalAnalysis list \<Rightarrow> bool \<Rightarrow>
   (string \<times> PipelineStageStatus) list \<Rightarrow> app \<Rightarrow> bool" where
  "finished k r H ok sts s =
     (length (runs s) = Suc k \<and> allReturned s \<and> \<not> isCancelling s \<and> aiConfig s \<noteq> None \<and>
      analysisHistory s \<noteq> [] \<and> anonymous (hd (analysisHistory s)) = r \<and>
      analysisHistory s = take 10 (hd (analysisHistory s) # H) \<and>
      (ok \<longrightarrow> storedHistory s = Some (analysisHistory s)) \<and>
      appState s = AppResults \<and> statuses s = sts)"

text \<open>What a failed run leaves behind.\<close>

definition failed ::
  "nat \<Rightarrow> thrown \<Rightarrow> HistoricalAnalysis list \<Rightarrow> (string \<times> PipelineStageStatus) list \<Rightarrow> app \<Rightarrow> bool" where
  "failed k e H sts s =
     (length (runs s) = Suc k \<and> allReturned s \<and> \<not> isCancelling s \<and> aiConfig s \<noteq> None \<and>
      analysisHistory s = H \<and> error s = Some (errorMessageOf e) \<and>
      appState s = AppError \<and> statuses s = failRunning sts)"

definition allComplete :: "(string \<times> PipelineStageStatus) list" where
  "allComplete =
     [(''crawl'', Complete), (''rank'', Complete), (''competitor'', Complete), (''technical'', Complete),
      (''content'', Complete), (''actionplan'', Complete), (''summary'', Complete)]"

definition fanoutDone :: "(string \<times> PipelineStageStatus) list" where
  "fanoutDone =
     [(''crawl'', Complete), (''rank'', Complete), (''competitor'', Complete), (''technical'', Complete),
      (''content'', Complete), (''actionplan'', Pending), (''summary'', Pending)]"

definition exampleEmptyCrawl :: "event list" where
  "exampleEmptyCrawl =
     [exampleSubmit, CrawlFrame 1 \<lparr>p_count = 0, p_total = 0, p_currentSitemap = None\<rparr>,
      CrawlSettled 1 (Inr [])]"

definition examplePost :: "event list" where
  "examplePost =
     [PlanSettled 1 (Inr [''day 1'']), CrawlFrame 1 \<lparr>p_count = 1, p_total = 1, p_currentSitemap = None\<rparr>,
      SummarySettled 1 (Inr ''summary'') True]"


text \<open>The answers of the collaborators to one successful run: the parsed sitemap URL, the
  crawled URLs, the cached analysis if there is one, the results of the fan-out (read on a
  cache miss only), the action plan and the summary.\<close>

record runAnswers =
  r_data :: WizardSubmitData
  r_parsed :: string
  r_urls :: "string list"
  r_cached :: "CachedAnalysis option"
  r_sitewide :: SitewideAnalysis
  r_analysis :: SeoAnalysisResult
  r_sources :: "GroundingSource list"
  r_plan :: "DailyActionPlan list"
  r_summary :: ExecutiveSummary

text \<open>The events of a successful run of activation \<open>k\<close>, apart from progress callbacks;
  the write to \<open>localStorage\<close> succeeds.\<close>

definition scriptOf :: "nat \<Rightarrow> runAnswers \<Rightarrow> event list" where
  "scriptOf k r = (case r_cached r of
       Some c \<Rightarrow>
         [Submit (r_data r) (Some (r_parsed r)), CrawlSettled k (Inr (r_urls r)),
          CacheGetSettled k (Inr (Some c)),
          PlanSettled k (Inr (r_plan r)), SummarySettled k (Inr (r_summary r)) True]
     | None \<Rightarrow>
         [Submit (r_data r) (Some (r_parsed r)), CrawlSettled k (Inr (r_urls r)),
          CacheGetSettled k (Inr None),
          FanoutSettled k (Inr (r_sitewide r, r_analysis r, r_sources r)),
          CacheSetSettled k (Inr ()),
          PlanSettled k (Inr (r_plan r)), SummarySettled k (Inr (r_summary r)) True])"

text \<open>Successful runs one after the other, each submitted when the one before is over.\<close>

fun scripts :: "nat \<Rightarrow> runAnswers list \<Rightarrow> event list" where
  "scripts k [] = []"
| "scripts k (r # rs) = scriptOf k r @ scripts (Suc k) rs"

text \<open>The record that such a run adds to the history, without its clock readings.\<close>

definition recordOf :: "runAnswers \<Rightarrow> HistoricalAnalysis" where
  "recordOf r = (case r_cached r of
       Some c \<Rightarrow> expectedRecord (r_data r) (c_sitewide c) (c_seo c) [] (r_plan r) (r_summary r)
     | None \<Rightarrow> expectedRecord (r_data r) (r_sitewide r) (r_analysis r) (r_sources r)
                 (r_plan r) (r_summary r))"

definition validAnswers :: "runAnswers \<Rightarrow> bool" where
  "validAnswers r = (d_sitemapUrl (r_data r) \<noteq> [] \<and> r_urls r \<noteq> [])"

text \<open>The application between two runs: no run in flight.\<close>

definition quiet :: "app \<Rightarrow> bool" where
  "quiet s = (allReturned s \<and> \<not> isCancelling s \<and> aiConfig s \<noteq> None)"

text \<open>Eleven runs for the concrete scenario: run \<open>n\<close> analyses the site \<open>n\<close>; the even
  ones find their analysis in the cache.\<close>

definition exampleAnswers :: "nat \<Rightarrow> runAnswers" where
  "exampleAnswers n =
     \<lparr>r_data = exampleData\<lparr>d_url := ''https://example.com/'' @ string_of_nat n\<rparr>,
      r_parsed = ''https://example.com/sitemap.xml'',
      r_urls = [''https://example.com/'' @ string_of_nat n],
      r_cached = (if even n then Some \<lparr>c_sitewide = ''cached sitewide'', c_seo = ''cached seo''\<rparr> else None),
      r_sitewide = ''sitewide'', r_analysis = ''seo'', r_sources = [''source''],
      r_plan = [''day 1''], r_summary = ''summary''\<rparr>"

definition exampleEleven :: "runAnswers list" where
  "exampleEleven = map exampleAnswers [1, 2, 3, 4, 5, 6, 7, 8, 9, 10, 11]"

definition exampleElevenRuns :: "event list" where
  "exampleElevenRuns =
     CrawlFrame 0 \<lparr>p_count = 1, p_total = 1, p_currentSitemap = None\<rparr> # scripts 1 exampleEleven"

definition fanoutStages :: "string set" where
  "fanoutStages = {''competitor'', ''technical'', ''content''}"

definition timesBounded :: "app \<Rightarrow> bool" where
  "timesBounded s = (\<forall>st \<in> set (pipelineStages s).
      (\<forall>a. startTime st = Some a \<longrightarrow> a \<le> clock s) \<and> (\<forall>b. endTime st = Some b \<longrightarrow> b \<le> clock s))"

text \<open>No stage has a time in the future, and \<open>actionplan\<close> has not been started.\<close>

definition planUnstarted :: "app \<Rightarrow> bool" where
  "planUnstarted s = (timesBounded s \<and>
      (\<forall>st \<in> set (pipelineStages s). sid st = ''actionplan'' \<longrightarrow> startTime st = None))"

text \<open>No stage has a time in the future, and \<open>actionplan\<close> did not start before the end of a
  stage of the fan-out.\<close>

definition joinRespected :: "app \<Rightarrow> bool" where
  "joinRespected s = (timesBounded s \<and>
      (\<forall>ap \<in> set (pipelineStages s). \<forall>st \<in> set (pipelineStages s).
         sid ap = ''actionplan'' \<longrightarrow> sid st \<in> fanoutStages \<longrightarrow>
         (\<forall>t e. startTime ap = Some t \<longrightarrow> endTime st = Some e \<longrightarrow> e \<le> t)))"

definition beforePlan :: "pc \<Rightarrow> bool" where
  "beforePlan p = (case p of AwaitCrawl \<Rightarrow> True | AwaitCacheGet _ \<Rightarrow> True | AwaitFanout _ \<Rightarrow> True
     | AwaitCacheSet _ _ _ \<Rightarrow> True | _ \<Rightarrow> False)"

text \<open>The invariant of a single run, activation \<open>k\<close>, for the join of the fan-out.\<close>

definition joinInv :: "nat \<Rightarrow> app \<Rightarrow> bool" where
  "joinInv k s = (length (runs s) = Suc k \<and> (\<forall>j < k. a_pc (runs s ! j) = Returned) \<and>
      (if beforePlan (a_pc (runs s ! k)) then planUnstarted s else joinRespected s))"

text \<open>What a segment has to leave for the invariant of the join.\<close>

definition joinStep :: "(thrown + pc) \<times> app \<Rightarrow> app \<Rightarrow> bool" where
  "joinStep r s = (runs (snd r) = runs s \<and> joinRespected (snd r) \<and>
      (\<forall>p. fst r = Inr p \<longrightarrow> beforePlan p \<longrightarrow> planUnstarted (snd r)))"

definition exampleMissToPlan :: "event list" where
  "exampleMissToPlan =
     [CrawlSettled 1 (Inr [''https://example.com/'']), CacheGetSettled 1 (Inr None),
      SeoProgress 1 ''Analyzing pages'',
      FanoutSettled 1 (Inr (''sitewide'', ''seo'', [''source''])), CacheSetSettled 1 (Inr ())]"

definition examplePlanStarted :: app where
  "examplePlanStarted =
     run_all id (Submit exampleData (Some ''https://example.com/sitemap.xml'') # exampleMissToPlan)
       exampleFanoutFailed"

text \<open>The flag \<open>isCancelling\<close> is down, in the state and in the closure of every activation.\<close>

definition calm :: "app \<Rightarrow> bool" where
  "calm s = (\<not> isCancelling s \<and> (\<forall>a \<in> set (runs s). \<not> a_isCancelling a))"

text \<open>The first run of the application waits for the cache write; an action plan and a
  summary for it.\<close>

definition exampleAtCacheSet :: app where
  "exampleAtCacheSet = run_all id
     [exampleSubmit, CrawlSettled 0 (Inr [''https://example.com/'']), CacheGetSettled 0 (Inr None),
      FanoutSettled 0 (Inr (''sitewide'', ''seo'', [''source'']))] exampleApp"

definition exampleLate :: "event list" where
  "exampleLate = [PlanSettled 0 (Inr [''day 1'']), SummarySettled 0 (Inr ''summary'') True]"

definition exampleDataB :: WizardSubmitData where
  "exampleDataB = \<lparr>d_sitemapUrl = ''https://example.org/sitemap.xml'', d_url = ''https://example.org'',
     d_competitorSitemaps = [], d_analysisType = ''global'', d_targetLocation = []\<rparr>"

definition exampleSubmitB :: event where
  "exampleSubmitB = Submit exampleDataB (Some ''https://example.org/sitemap.xml'')"

text \<open>A run is submitted and cancelled while its crawl is in flight, and a second run is
  submitted: activation 0 is the cancelled run, activation 1 the new one.\<close>

definition exampleOverlap :: "event list" where
  "exampleOverlap = [exampleSubmit, Cancel, exampleSubmitB]"

definition exampleSecondEmpty :: app where
  "exampleSecondEmpty = run_all id (exampleOverlap @ [CrawlSettled 1 (Inr [])]) exampleApp"

definition exampleStaleFanout :: app where
  "exampleStaleFanout = run_all id
     [CrawlSettled 0 (Inr [''https://example.com/'']), CacheGetSettled 0 (Inr None)] exampleSecondEmpty"

definition exampleStalePlan :: app where
  "exampleStalePlan = run_all id (exampleOverlap @
     [CrawlSettled 0 (Inr [''https://example.com/'']), CacheGetSettled 0 (Inr None),
      FanoutSettled 0 (Inr (''sitewide'', ''seo'', [''source''])),
      CrawlSettled 1 (Inr [''https://example.org/'']), CacheGetSettled 1 (Inr None),
      CacheSetSettled 0 (Inr ()),
      FanoutSettled 1 (Inr (''sitewide'', ''seo'', [''source'']))]) exampleApp"

definition exampleSecondFinished :: app where
  "exampleSecondFinished = run_all id (exampleOverlap @
     [CrawlSettled 1 (Inr [''https://example.org/'']),
      CacheGetSettled 1 (Inr (Some \<lparr>c_sitewide = ''sitewide'', c_seo = ''seo''\<rparr>)),
      PlanSettled 1 (Inr [''day 1'']), SummarySettled 1 (Inr ''summary'') True]) exampleApp"

definition exampleStaleFinished :: app where
  "exampleStaleFinished = run_all id
     [CrawlSettled 0 (Inr [''https://example.com/'']),
      CacheGetSettled 0 (Inr (Some \<lparr>c_sitewide = ''sitewide'', c_seo = ''seo''\<rparr>)),
      PlanSettled 0 (Inr [''day 1'']), SummarySettled 0 (Inr ''summary'') True] exampleSecondFinished"

text \<open>What is observed of a state in the scenarios with two runs: where each activation is
  suspended, together with the screen, the error message and the status of every stage,
  or with the times of every stage, or with the sitemap URLs of the history records, in the
  state and in \<open>localStorage\<close>.\<close>

definition runView ::
  "app \<Rightarrow> pc list \<times> AppState \<times> string option \<times> (string \<times> PipelineStageStatus) list" where
  "runView s = (map a_pc (runs s), appState s, error s, statuses s)"

definition timesView ::
  "app \<Rightarrow> pc list \<times> (string \<times> PipelineStageStatus \<times> nat option \<times> nat option) list" where
  "timesView s = (map a_pc (runs s), stageTable s)"

definition historyView :: "app \<Rightarrow> pc list \<times> string list \<times> string list option" where
  "historyView s = (map a_pc (runs s), map h_sitemapUrl (analysisHistory s),
     map_option (map h_sitemapUrl) (storedHistory s))"

section \<open>What each operation leaves unchanged\<close>

lemma Date_now_frame [simp]:
  "pipelineStages (snd (Date_now s)) = pipelineStages s"
  "runs (snd (Date_now s)) = runs s"
  "analysisHistory (snd (Date_now s)) = analysisHistory s"
  "storedHistory (snd (Date_now s)) = storedHistory s"
  "aiConfig (snd (Date_now s)) = aiConfig s"
  "isCancelling (snd (Date_now s)) = isCancelling s"
  "partialResults (snd (Date_now s)) = partialResults s"
  "partialWrites (snd (Date_now s)) = partialWrites s"
  "appState (snd (Date_now s)) = appState s"
  "error (snd (Date_now s)) = error s"
  "activityLog (snd (Date_now s)) = activityLog s"
  by (simp_all add: Date_now_def Let_def)

lemma Date_now_clock:
  "clock s \<le> fst (Date_now s)"
  "clock (snd (Date_now s)) = fst (Date_now s)"
  by (simp_all add: Date_now_def Let_def)

lemma addLog_frame [simp]:
  "pipelineStages (addLog m ty g s) = pipelineStages s"
  "runs (addLog m ty g s) = runs s"
  "analysisHistory (addLog m ty g s) = analysisHistory s"
  "storedHistory (addLog m ty g s) = storedHistory s"
  "aiConfig (addLog m ty g s) = aiConfig s"
  "isCancelling (addLog m ty g s) = isCancelling s"
  "partialResults (addLog m ty g s) = partialResults s"
  "partialWrites (addLog m ty g s) = partialWrites s"
  "appState (addLog m ty g s) = appState s"
  "error (addLog m ty g s) = error s"
  by (simp_all add: addLog_def Date_now_def Let_def)

lemma updateStage_frame [simp]:
  "runs (updateStage i u s) = runs s"
  "analysisHistory (updateStage i u s) = analysisHistory s"
  "storedHistory (updateStage i u s) = storedHistory s"
  "aiConfig (updateStage i u s) = aiConfig s"
  "isCancelling (updateStage i u s) = isCancelling s"
  "partialResults (updateStage i u s) = partialResults s"
  "partialWrites (updateStage i u s) = partialWrites s"
  "appState (updateStage i u s) = appState s"
  "error (updateStage i u s) = error s"
  "activityLog (updateStage i u s) = activityLog s"
  "clock (updateStage i u s) = clock s"
  "ticks (updateStage i u s) = ticks s"
  by (simp_all add: updateStage_def)

lemma startStage_frame [simp]:
  "runs (startStage i task s) = runs s"
  "analysisHistory (startStage i task s) = analysisHistory s"
  "storedHistory (startStage i task s) = storedHistory s"
  "aiConfig (startStage i task s) = aiConfig s"
  "isCancelling (startStage i task s) = isCancelling s"
  "partialResults (startStage i task s) = partialResults s"
  "partialWrites (startStage i task s) = partialWrites s"
  "appState (startStage i task s) = appState s"
  "error (startStage i task s) = error s"
  "activityLog (startStage i task s) = activityLog s"
  by (simp_all add: startStage_def Date_now_def Let_def)

lemma completeStage_frame [simp]:
  "runs (completeStage i s) = runs s"
  "analysisHistory (completeStage i s) = analysisHistory s"
  "storedHistory (completeStage i s) = storedHistory s"
  "aiConfig (completeStage i s) = aiConfig s"
  "isCancelling (completeStage i s) = isCancelling s"
  "partialResults (completeStage i s) = partialResults s"
  "partialWrites (completeStage i s) = partialWrites s"
  "appState (completeStage i s) = appState s"
  "error (completeStage i s) = error s"
  "activityLog (completeStage i s) = activityLog s"
  by (simp_all add: completeStage_def Date_now_def Let_def)

lemma taskStage_frame [simp]:
  "runs (taskStage i msg s) = runs s"
  "analysisHistory (taskStage i msg s) = analysisHistory s"
  "storedHistory (taskStage i msg s) = storedHistory s"
  "aiConfig (taskStage i msg s) = aiConfig s"
  "isCancelling (taskStage i msg s) = isCancelling s"
  "partialResults (taskStage i msg s) = partialResults s"
  "partialWrites (taskStage i msg s) = partialWrites s"
  "appState (taskStage i msg s) = appState s"
  "error (taskStage i msg s) = error s"
  "activityLog (taskStage i msg s) = activityLog s"
  "clock (taskStage i msg s) = clock s"
  "ticks (taskStage i msg s) = ticks s"
  by (simp_all add: taskStage_def)

lemma crawlFrame_frame [simp]:
  "runs (crawlFrame p s) = runs s"
  "analysisHistory (crawlFrame p s) = analysisHistory s"
  "storedHistory (crawlFrame p s) = storedHistory s"
  "aiConfig (crawlFrame p s) = aiConfig s"
  "isCancelling (crawlFrame p s) = isCancelling s"
  "partialResults (crawlFrame p s) = partialResults s"
  "partialWrites (crawlFrame p s) = partialWrites s"
  "appState (crawlFrame p s) = appState s"
  "error (crawlFrame p s) = error s"
  "activityLog (crawlFrame p s) = activityLog s"
  "clock (crawlFrame p s) = clock s"
  "ticks (crawlFrame p s) = ticks s"
  by (simp_all add: crawlFrame_def)

lemma failRunningStages_frame [simp]:
  "runs (failRunningStages s) = runs s"
  "analysisHistory (failRunningStages s) = analysisHistory s"
  "storedHistory (failRunningStages s) = storedHistory s"
  "aiConfig (failRunningStages s) = aiConfig s"
  "isCancelling (failRunningStages s) = isCancelling s"
  "partialResults (failRunningStages s) = partialResults s"
  "partialWrites (failRunningStages s) = partialWrites s"
  "appState (failRunningStages s) = appState s"
  "error (failRunningStages s) = error s"
  "activityLog (failRunningStages s) = activityLog s"
  "clock (failRunningStages s) = clock s"
  "ticks (failRunningStages s) = ticks s"
  by (simp_all add: failRunningStages_def)

lemma mergePartialResults_frame [simp]:
  "pipelineStages (mergePartialResults w s) = pipelineStages s"
  "runs (mergePartialResults w s) = runs s"
  "analysisHistory (mergePartialResults w s) = analysisHistory s"
  "storedHistory (mergePartialResults w s) = storedHistory s"
  "aiConfig (mergePartialResults w s) = aiConfig s"
  "isCancelling (mergePartialResults w s) = isCancelling s"
  "appState (mergePartialResults w s) = appState s"
  "error (mergePartialResults w s) = error s"
  "activityLog (mergePartialResults w s) = activityLog s"
  "clock (mergePartialResults w s) = clock s"
  "ticks (mergePartialResults w s) = ticks s"
  by (simp_all add: mergePartialResults_def)

lemma replacePartialResults_frame [simp]:
  "pipelineStages (replacePartialResults w s) = pipelineStages s"
  "runs (replacePartialResults w s) = runs s"
  "analysisHistory (replacePartialResults w s) = analysisHistory s"
  "storedHistory (replacePartialResults w s) = storedHistory s"
  "aiConfig (replacePartialResults w s) = aiConfig s"
  "isCancelling (replacePartialResults w s) = isCancelling s"
  "appState (replacePartialResults w s) = appState s"
  "error (replacePartialResults w s) = error s"
  "activityLog (replacePartialResults w s) = activityLog s"
  "clock (replacePartialResults w s) = clock s"
  "ticks (replacePartialResults w s) = ticks s"
  by (simp_all add: replacePartialResults_def)

lemma stampAnalysisStart_frame [simp]:
  "pipelineStages (stampAnalysisStart s) = pipelineStages s"
  "runs (stampAnalysisStart s) = runs s"
  "analysisHistory (stampAnalysisStart s) = analysisHistory s"
  "storedHistory (stampAnalysisStart s) = storedHistory s"
  "aiConfig (stampAnalysisStart s) = aiConfig s"
  "isCancelling (stampAnalysisStart s) = isCancelling s"
  "partialResults (stampAnalysisStart s) = partialResults s"
  "partialWrites (stampAnalysisStart s) = partialWrites s"
  "appState (stampAnalysisStart s) = appState s"
  "error (stampAnalysisStart s) = error s"
  "activityLog (stampAnalysisStart s) = activityLog s"
  by (simp_all add: stampAnalysisStart_def Date_now_def Let_def)

lemma resetPipeline_frame [simp]:
  "pipelineStages (resetPipeline s) = freshStages"
  "runs (resetPipeline s) = runs s"
  "analysisHistory (resetPipeline s) = analysisHistory s"
  "storedHistory (resetPipeline s) = storedHistory s"
  "aiConfig (resetPipeline s) = aiConfig s"
  "isCancelling (resetPipeline s) = isCancelling s"
  "partialResults (resetPipeline s) = emptyResults"
  "partialWrites (resetPipeline s) = []"
  "appState (resetPipeline s) = appState s"
  "error (resetPipeline s) = error s"
  "activityLog (resetPipeline s) = []"
  by (simp_all add: resetPipeline_def)

lemma finalize_frame [simp]:
  "pipelineStages (finalize a sw an so pl su ok s) = pipelineStages s"
  "runs (finalize a sw an so pl su ok s) = runs s"
  "aiConfig (finalize a sw an so pl su ok s) = aiConfig s"
  "isCancelling (finalize a sw an so pl su ok s) = isCancelling s"
  "partialResults (finalize a sw an so pl su ok s) = partialResults s"
  "partialWrites (finalize a sw an so pl su ok s) = partialWrites s"
  "appState (finalize a sw an so pl su ok s) = AppResults"
  "error (finalize a sw an so pl su ok s) = error s"
  "activityLog (finalize a sw an so pl su ok s) = activityLog s"
  by (simp_all add: finalize_def Date_now_def Let_def)

section \<open>A proof principle for properties of the stages and the clock\<close>

text \<open>A property that the elementary operations preserve, and that depends on nothing but
  the stage list and the clock, is preserved by every event.\<close>

lemma settle_preserves:
  assumes stage_ext: "\<And>s s'. P s \<Longrightarrow> pipelineStages s' = pipelineStages s \<Longrightarrow> clock s' = clock s \<Longrightarrow> P s'"
    and rej: "\<And>a e s. P s \<Longrightarrow> P (onRejected a e s)"
    and P: "P (snd r)"
  shows "P (settle k a r)"
proof (cases r)
  case (Pair x s1)
  show ?thesis
  proof (cases x)
    case (Inl e)
    have "P (onRejected a e s1)" using P Pair by (simp add: rej)
    then have "P ((onRejected a e s1)\<lparr>runs := rs\<rparr>)" for rs
      by (rule stage_ext) simp_all
    then show ?thesis using Pair Inl
      by (simp add: settle_def Let_def)
  next
    case (Inr p)
    have "P s1" using P Pair by simp
    then have "P (s1\<lparr>runs := rs\<rparr>)" for rs
      by (rule stage_ext) simp_all
    then show ?thesis using Pair Inr
      by (simp add: settle_def)
  qed
qed

lemma step_preserves:
  assumes stage_ext: "\<And>s s'. P s \<Longrightarrow> pipelineStages s' = pipelineStages s \<Longrightarrow> clock s' = clock s \<Longrightarrow> P s'"
    and now: "\<And>s. P s \<Longrightarrow> P (snd (Date_now s))"
    and start: "\<And>i task s. P s \<Longrightarrow> P (startStage i task s)"
    and complete: "\<And>i s. P s \<Longrightarrow> P (completeStage i s)"
    and upd: "\<And>i u s. P s \<Longrightarrow> u_status u = None \<Longrightarrow> u_startTime u = None \<Longrightarrow> u_endTime u = None
                 \<Longrightarrow> P (updateStage i u s)"
    and fail: "\<And>s. P s \<Longrightarrow> P (failRunningStages s)"
    and fresh: "\<And>s. P s \<Longrightarrow> P (s\<lparr>pipelineStages := freshStages\<rparr>)"
    and P: "P s"
  shows "P (step rankUrls ev s)"
proof -
  have log: "P (addLog m ty g s)" if "P s" for m ty g s
    using now [OF that] by (rule stage_ext) (simp_all add: addLog_def Date_now_def Let_def)
  have stamp: "P (stampAnalysisStart s)" if "P s" for s
    using now [OF that] by (rule stage_ext) (simp_all add: stampAnalysisStart_def Date_now_def Let_def)
  have reset: "P (resetPipeline s)" if "P s" for s
  proof -
    have "P (s\<lparr>pipelineStages := freshStages, activityLog := [], partialResults := emptyResults,
          partialWrites := []\<rparr>)"
      using fresh [OF that] by (rule stage_ext) simp_all
    then show ?thesis unfolding resetPipeline_def by (rule stamp)
  qed
  have task: "P (taskStage i m s)" if "P s" for i m s
    unfolding taskStage_def using that by (rule upd) (simp_all add: noUpdate_def)
  have frame: "P (crawlFrame p s)" if "P s" for p s
  proof -
    have "P (s\<lparr>crawlProgress := Some p\<rparr>)" using that by (rule stage_ext) simp_all
    then show ?thesis unfolding crawlFrame_def by (rule upd) (simp_all add: noUpdate_def)
  qed
  have merge: "P (mergePartialResults w s)" if "P s" for w s
    using that by (rule stage_ext) simp_all
  have replace: "P (replacePartialResults w s)" if "P s" for w s
    using that by (rule stage_ext) simp_all
  have fin: "P (finalize a sw an so pl su ok s)" if "P s" for a sw an so pl su ok s
    using now [OF now [OF that]] by (rule stage_ext) (simp_all add: finalize_def Date_now_def Let_def)
  have rej: "P (onRejected a e s)" if "P s" for a e s
  proof (cases "a_isCancelling a")
    case True then show ?thesis using that by (simp add: onRejected_def)
  next
    case False
    have "P (s\<lparr>error := Some m\<rparr>)" for m using that by (rule stage_ext) simp_all
    then have "P (failRunningStages (addLog m' LogError None (s\<lparr>error := Some m\<rparr>)))" for m m'
      by (intro fail log)
    then have "P ((failRunningStages (addLog m' LogError None (s\<lparr>error := Some m\<rparr>)))\<lparr>appState := AppError\<rparr>)" for m m'
      by (rule stage_ext) simp_all
    then show ?thesis using False by (simp add: onRejected_def Let_def)
  qed
  note prims = log stamp reset task frame merge replace fin rej start complete fail
  have crawl: "P (snd (afterCrawl urls s))" if "P s" for urls s
  proof -
    have 1: "P (mergePartialResults w (addLog m Success g (completeStage ''crawl'' s)))" for w m g
      using that by (intro prims)
    then have "P ((mergePartialResults w (addLog m Success g (completeStage ''crawl'' s)))
                  \<lparr>loadingPhase := Analyzing, crawlProgress := None\<rparr>)" for w m g
      by (rule stage_ext) simp_all
    then have "P (addLog m' Info None ((mergePartialResults w (addLog m Success g (completeStage ''crawl'' s)))
                  \<lparr>loadingPhase := Analyzing, crawlProgress := None\<rparr>))" for w m g m'
      by (rule log)
    with 1 show ?thesis by (simp add: afterCrawl_def Let_def)
  qed
  have hit: "P (snd (afterCacheHit urls c s))" if "P s" for urls c s
    using that by (simp add: afterCacheHit_def Let_def prims)
  have miss: "P (snd (afterCacheMiss rankUrls urls s))" if "P s" for urls s
    using that by (simp add: afterCacheMiss_def Let_def prims)
  have fan: "P (snd (afterFanout sw an so s))" if "P s" for sw an so s
    using that by (simp add: afterFanout_def Let_def prims)
  have cset: "P (snd (afterCacheSet sw an so s))" if "P s" for sw an so s
    using that by (simp add: afterCacheSet_def Let_def prims)
  have plan: "P (afterPlan m t pl s)" if "P s" for m t pl s
    using that by (simp add: afterPlan_def Let_def prims)
  have sumh: "P (snd (afterSummaryHit a c pl su ok s))" if "P s" for a c pl su ok s
    using that by (simp add: afterSummaryHit_def Let_def prims)
  have summ: "P (snd (afterSummaryMiss a sw an so pl su ok s))" if "P s" for a sw an so pl su ok s
    using that by (simp add: afterSummaryMiss_def Let_def prims)
  have aw: "P (snd (awaited r cont s))" if "P s" "\<And>v. P (snd (cont v s))" for r and cont :: "'v \<Rightarrow> app \<Rightarrow> (thrown + pc) \<times> app" and s
    using that by (simp add: awaited_def split: sum.splits)
  have res: "P (resume k f s)" if "P s" "\<And>a seg. f a = Some seg \<Longrightarrow> P (snd (seg s))" for k f s
  proof (cases "k < length (runs s)")
    case False
    then show ?thesis using that by (simp add: resume_def)
  next
    case True
    show ?thesis
    proof (cases "f (runs s ! k)")
      case None
      then show ?thesis using that True by (simp add: resume_def)
    next
      case (Some seg)
      have "P (settle k (runs s ! k) (seg s))"
        apply (rule settle_preserves [where P = P])
          apply (erule stage_ext; assumption)
         apply (erule rej)
        apply (rule that(2) [OF Some])
        done
      then show ?thesis using True Some by (simp add: resume_def)
    qed
  qed
  have cb: "P (callback k issued f s)" if "P s" "P (f s)" for k issued f s
    using that by (simp add: callback_def)
  show ?thesis
  proof (cases ev)
    case (Submit d p)
    have "P (s\<lparr>abortController := Some False, appState := AppLoading,
                         loadingPhase := Crawling, error := None,
                         selectedAnalysisId := None, crawlProgress := None\<rparr>)"
      using P by (rule stage_ext) simp_all
    then have "P (startStage i t (addLog m ty g (stampAnalysisStart (resetPipeline (s\<lparr>abortController := Some False, appState := AppLoading,
                         loadingPhase := Crawling, error := None,
                         selectedAnalysisId := None, crawlProgress := None\<rparr>)))))" for i t m ty g
      by (intro prims)
    then have "P ((startStage i t (addLog m ty g (stampAnalysisStart (resetPipeline (s\<lparr>abortController := Some False, appState := AppLoading,
                         loadingPhase := Crawling, error := None,
                         selectedAnalysisId := None, crawlProgress := None\<rparr>)))))\<lparr>runs := r\<rparr>)" for i t m ty g r
      by (rule stage_ext) simp_all
    moreover have "P (s\<lparr>error := e, appState := a\<rparr>)" for e a
      using P by (rule stage_ext) simp_all
    ultimately show ?thesis using Submit
      by (simp add: step_def handleSubmit_def Let_def split: option.splits)
  next
    case Cancel
    have "P (s\<lparr>isCancelling := True, abortController := ab\<rparr>)" for ab
      using P by (rule stage_ext) simp_all
    then have "P (failRunningStages (addLog m ty g (s\<lparr>isCancelling := True, abortController := ab\<rparr>)))" for ab m ty g
      by (intro prims)
    then have "P ((failRunningStages (addLog m ty g (s\<lparr>isCancelling := True, abortController := ab\<rparr>)))\<lparr>appState := AppIdle, isCancelling := False\<rparr>)" for ab m ty g
      by (rule stage_ext) simp_all
    then have "P (resetPipeline ((failRunningStages (addLog m ty g (s\<lparr>isCancelling := True, abortController := ab\<rparr>)))\<lparr>appState := AppIdle, isCancelling := False\<rparr>))" for ab m ty g
      by (rule reset)
    then show ?thesis using Cancel
      by (simp add: step_def handleCancelAnalysis_def Let_def)
  next
    case NewAnalysis
    have "P (s\<lparr>selectedAnalysisId := None, appState := a, error := None\<rparr>)" for a
      using P by (rule stage_ext) simp_all
    then show ?thesis using NewAnalysis
      by (simp add: step_def handleNewAnalysis_def reset)
  next
    case (AiConfigChange c)
    have "P (s\<lparr>aiConfig := Some c, appState := AppIdle\<rparr>)"
      using P by (rule stage_ext) simp_all
    then show ?thesis using AiConfigChange
      by (simp add: step_def handleAiConfigChange_def)
  next
    case (CrawlFrame k p)
    then show ?thesis using P by (simp add: step_def cb frame)
  next
    case (AuditProgress k m)
    then show ?thesis using P by (simp add: step_def cb auditProgress_def log task)
  next
    case (SeoProgress k m)
    then show ?thesis using P by (simp add: step_def cb seoProgress_def log task)
  next
    case (PlanProgress k m)
    then show ?thesis using P by (simp add: step_def cb planProgress_def log task)
  next
    case (CrawlSettled k r)
    then show ?thesis using P
      by (auto simp: step_def intro!: res aw crawl split: pc.splits)
  next
    case (CacheGetSettled k r)
    then show ?thesis using P
      by (auto simp: step_def intro!: res aw hit miss split: pc.splits option.splits)
  next
    case (FanoutSettled k r)
    then show ?thesis using P
      by (auto simp: step_def intro!: res aw fan split: pc.splits)
  next
    case (CacheSetSettled k r)
    then show ?thesis using P
      by (auto simp: step_def intro!: res aw cset split: pc.splits)
  next
    case (PlanSettled k r)
    then show ?thesis using P
      by (auto simp: step_def intro!: res aw plan split: pc.splits)
  next
    case (SummarySettled k r ok)
    then show ?thesis using P
      by (auto simp: step_def intro!: res aw sumh summ split: pc.splits)
  qed
qed


lemma run_all_preserves:
  assumes "P s" and "\<And>ev s. P s \<Longrightarrow> P (step rankUrls ev s)"
  shows "P (run_all rankUrls evs s)"
  using assms(1) by (induction evs arbitrary: s) (simp_all add: run_all_def assms(2))

lemma fresh_pending: "st \<in> set freshStages \<Longrightarrow> status st = Pending \<and> startTime st = None \<and> endTime st = None"
  by (auto simp: freshStages_def PIPELINE_STAGE_DEFINITIONS_def pendingStage_def)

lemma noSkipped_step: "noSkipped s \<Longrightarrow> noSkipped (step rankUrls ev s)"
proof (rule step_preserves [where P = noSkipped])
  show "noSkipped (s\<lparr>pipelineStages := freshStages\<rparr>)" for s
    by (auto simp: noSkipped_def dest: fresh_pending)
qed (auto simp: noSkipped_def startStage_def completeStage_def updateStage_def mergeStage_def
       noUpdate_def failRunningStages_def Date_now_def Let_def)

lemma timesOk_step: "timesOk s \<Longrightarrow> timesOk (step rankUrls ev s)"
proof (rule step_preserves [where P = timesOk])
  show "timesOk (s\<lparr>pipelineStages := freshStages\<rparr>)" for s
    by (auto simp: timesOk_def dest: fresh_pending)
  show "timesOk s \<Longrightarrow> timesOk (startStage i task s)" for i task s
    by (fastforce simp: timesOk_def startStage_def updateStage_def mergeStage_def
          noUpdate_def orElse_def Date_now_def Let_def)
  show "timesOk s \<Longrightarrow> timesOk (completeStage i s)" for i s
    by (fastforce simp: timesOk_def completeStage_def updateStage_def mergeStage_def
          noUpdate_def orElse_def Date_now_def Let_def)
  show "timesOk s \<Longrightarrow> timesOk (snd (Date_now s))" for s
    by (fastforce simp: timesOk_def Date_now_def Let_def)
  show "timesOk s \<Longrightarrow> u_status u = None \<Longrightarrow> u_startTime u = None \<Longrightarrow> u_endTime u = None
        \<Longrightarrow> timesOk (updateStage i u s)" for i u s
    by (auto simp: timesOk_def updateStage_def mergeStage_def orElse_def)
  show "timesOk s \<Longrightarrow> timesOk (failRunningStages s)" for s
    by (auto simp: timesOk_def failRunningStages_def)
  show "timesOk s \<Longrightarrow> pipelineStages s' = pipelineStages s \<Longrightarrow> clock s' = clock s \<Longrightarrow> timesOk s'" for s s'
    by (simp add: timesOk_def)
qed


section \<open>The concrete scenarios, evaluated\<close>

text \<open>The transition function in the form in which the concrete scenarios are evaluated: the
  segment after the action plan is not applied to a state before there is one.\<close>

lemma step_code [code]:
  "step rankUrls ev s = (case ev of
       Submit data parsed \<Rightarrow> handleSubmit data parsed s
     | Cancel \<Rightarrow> handleCancelAnalysis s
     | NewAnalysis \<Rightarrow> handleNewAnalysis s
     | AiConfigChange config \<Rightarrow> handleAiConfigChange config s
     | CrawlFrame k p \<Rightarrow> callback k (\<lambda>_. True) (crawlFrame p) s
     | AuditProgress k msg \<Rightarrow> callback k a_fanoutIssued (auditProgress msg) s
     | SeoProgress k msg \<Rightarrow> callback k a_fanoutIssued (seoProgress msg) s
     | PlanProgress k msg \<Rightarrow> callback k a_planIssued (planProgress msg) s
     | CrawlSettled k r \<Rightarrow>
         resume k (\<lambda>a. case a_pc a of
             AwaitCrawl \<Rightarrow> Some (awaited r afterCrawl)
           | _ \<Rightarrow> None) s
     | CacheGetSettled k r \<Rightarrow>
         resume k (\<lambda>a. case a_pc a of
             AwaitCacheGet urls \<Rightarrow>
               Some (awaited r (\<lambda>cachedAnalysis. case cachedAnalysis of
                       Some c \<Rightarrow> afterCacheHit urls c
                     | None \<Rightarrow> afterCacheMiss rankUrls urls))
           | _ \<Rightarrow> None) s
     | FanoutSettled k r \<Rightarrow>
         resume k (\<lambda>a. case a_pc a of
             AwaitFanout urls \<Rightarrow>
               Some (awaited r (\<lambda>v. case v of (sitewide, analysis, srcs) \<Rightarrow>
                       afterFanout sitewide analysis srcs))
           | _ \<Rightarrow> None) s
     | CacheSetSettled k r \<Rightarrow>
         resume k (\<lambda>a. case a_pc a of
             AwaitCacheSet sitewide analysis srcs \<Rightarrow>
               Some (awaited r (\<lambda>_. afterCacheSet sitewide analysis srcs))
           | _ \<Rightarrow> None) s
     | PlanSettled k r \<Rightarrow>
         resume k (\<lambda>a. case a_pc a of
             HitAwaitPlan c \<Rightarrow>
               Some (awaited r (\<lambda>plan.
                       thenSuspend (HitAwaitSummary c plan)
                         (afterPlan ''Action plan generated'' ''Creating 80/20 analysis...'' plan)))
           | AwaitPlan sitewide analysis srcs \<Rightarrow>
               Some (awaited r (\<lambda>plan.
                       thenSuspend (AwaitSummary sitewide analysis srcs plan)
                         (afterPlan ''Action plan generated successfully''
                            ''Generating 80/20 analysis...'' plan)))
           | _ \<Rightarrow> None) s
     | SummarySettled k r storageOk \<Rightarrow>
         resume k (\<lambda>a. case a_pc a of
             HitAwaitSummary c plan \<Rightarrow>
               Some (awaited r (\<lambda>summary. afterSummaryHit a c plan summary storageOk))
           | AwaitSummary sitewide analysis srcs plan \<Rightarrow>
               Some (awaited r (\<lambda>summary.
                       afterSummaryMiss a sitewide analysis srcs plan summary storageOk))
           | _ \<Rightarrow> None) s)"
  unfolding step_def thenSuspend_def by (rule refl)

lemma exampleFanoutRunning_table:
  "stageTable exampleFanoutRunning =
     [(''crawl'', Complete, Some 1020, Some 1025), (''rank'', Complete, Some 1050, Some 1055),
      (''competitor'', Running, Some 1070, None), (''technical'', Running, Some 1075, None),
      (''content'', Running, Some 1080, None), (''actionplan'', Pending, None, None),
      (''summary'', Pending, None, None)]"
  by code_simp

lemma exampleFanoutFailed_table:
  "stageTable exampleFanoutFailed =
     [(''crawl'', Complete, Some 1020, Some 1025), (''rank'', Complete, Some 1050, Some 1055),
      (''competitor'', Error, Some 1070, None), (''technical'', Error, Some 1075, None),
      (''content'', Error, Some 1080, None), (''actionplan'', Pending, None, None),
      (''summary'', Pending, None, None)]"
  by code_simp

lemma stageTable_nth:
  assumes "stageTable s ! i = (n, stt, a, b)" and "i < length (stageTable s)"
  shows "pipelineStages s ! i \<in> set (pipelineStages s)"
    and "sid (pipelineStages s ! i) = n" and "status (pipelineStages s ! i) = stt"
    and "startTime (pipelineStages s ! i) = a" and "endTime (pipelineStages s ! i) = b"
  using assms by (simp_all add: stageTable_def stageRow_def)

section \<open>Stage status and times\<close>

text \<open>
  C9. No operation of the orchestrator assigns the status \<open>skipped\<close>: in every state
  reachable from the mounted application by any sequence of events (submissions,
  cancellations, resets, collaborator answers and progress callbacks, on the cache-hit and
  on the cache-miss path), every stage has a status among pending, running, complete and
  error.
\<close>

theorem status_never_skipped:
  "status ` set (pipelineStages (run_all rankUrls evs (mounted config stored t0 tks)))
     \<subseteq> {Pending, Running, Complete, Error}"
proof -
  have "noSkipped (mounted config stored t0 tks)"
    by (auto simp: noSkipped_def mounted_def Let_def dest: fresh_pending)
  then have "noSkipped (run_all rankUrls evs (mounted config stored t0 tks))"
    by (rule run_all_preserves) (rule noSkipped_step)
  then have "\<forall>st \<in> set (pipelineStages (run_all rankUrls evs (mounted config stored t0 tks))).
               status st \<noteq> Skipped"
    by (simp add: noSkipped_def)
  then show ?thesis
    by (auto intro: PipelineStageStatus.exhaust)
qed

text \<open>
  C2 (as the code has it). In every state reachable from the mounted application, each
  stage satisfies: running implies a start time; complete implies an end time, which is not
  before the start time when the stage has one; error implies a start time. A stage that
  the failure handler marks as error gets no end time, and the four stages marked complete
  on a cache hit get an end time without a start time.
\<close>

theorem stage_times_invariant:
  "st \<in> set (pipelineStages (run_all rankUrls evs (mounted config stored t0 tks))) \<Longrightarrow>
     (status st = Running \<longrightarrow> startTime st \<noteq> None) \<and>
     (status st = Complete \<longrightarrow>
        endTime st \<noteq> None \<and>
        (\<forall>a b. startTime st = Some a \<longrightarrow> endTime st = Some b \<longrightarrow> a \<le> b)) \<and>
     (status st = Error \<longrightarrow> startTime st \<noteq> None)"
proof -
  assume st: "st \<in> set (pipelineStages (run_all rankUrls evs (mounted config stored t0 tks)))"
  have "timesOk (mounted config stored t0 tks)"
    by (auto simp: timesOk_def mounted_def Let_def dest: fresh_pending)
  then have "timesOk (run_all rankUrls evs (mounted config stored t0 tks))"
    by (rule run_all_preserves) (rule timesOk_step)
  with st show ?thesis
    unfolding timesOk_def by blast
qed

text \<open>C2, witness: a complete stage with both times, a running stage and a failed stage.\<close>

theorem stage_times_invariant_witness:
  "(pipelineStages exampleFanoutRunning ! 0 \<in> set (pipelineStages exampleFanoutRunning) \<and>
    status (pipelineStages exampleFanoutRunning ! 0) = Complete \<and>
    startTime (pipelineStages exampleFanoutRunning ! 0) = Some 1020 \<and>
    endTime (pipelineStages exampleFanoutRunning ! 0) = Some 1025) \<and>
   (pipelineStages exampleFanoutRunning ! 3 \<in> set (pipelineStages exampleFanoutRunning) \<and>
    status (pipelineStages exampleFanoutRunning ! 3) = Running \<and>
    startTime (pipelineStages exampleFanoutRunning ! 3) \<noteq> None) \<and>
   (pipelineStages exampleFanoutFailed ! 3 \<in> set (pipelineStages exampleFanoutFailed) \<and>
    status (pipelineStages exampleFanoutFailed ! 3) = Error \<and>
    startTime (pipelineStages exampleFanoutFailed ! 3) \<noteq> None)"
proof -
  note r0 = stageTable_nth [of exampleFanoutRunning 0 "''crawl''" Complete "Some 1020" "Some 1025"]
  note r3 = stageTable_nth [of exampleFanoutRunning 3 "''technical''" Running "Some 1075" None]
  note f3 = stageTable_nth [of exampleFanoutFailed 3 "''technical''" Error "Some 1075" None]
  have m0: "pipelineStages exampleFanoutRunning ! 0 \<in> set (pipelineStages exampleFanoutRunning)"
    by (rule r0) (simp_all add: exampleFanoutRunning_table)
  have m3: "pipelineStages exampleFanoutRunning ! 3 \<in> set (pipelineStages exampleFanoutRunning)"
    by (rule r3) (simp_all add: exampleFanoutRunning_table)
  have e3: "pipelineStages exampleFanoutFailed ! 3 \<in> set (pipelineStages exampleFanoutFailed)"
    by (rule f3) (simp_all add: exampleFanoutFailed_table)
  have vals: "status (pipelineStages exampleFanoutRunning ! 0) = Complete"
      "startTime (pipelineStages exampleFanoutRunning ! 0) = Some 1020"
      "endTime (pipelineStages exampleFanoutRunning ! 0) = Some 1025"
      "status (pipelineStages exampleFanoutRunning ! 3) = Running"
      "status (pipelineStages exampleFanoutFailed ! 3) = Error"
    using r0 r3 f3 by (simp_all add: exampleFanoutRunning_table exampleFanoutFailed_table)
  have run: "exampleFanoutRunning =
      run_all id (exampleCrawled @ [CacheGetSettled 0 (Inr None)])
        (mounted (Some ''config'') None 1000 (replicate 60 5))"
    by (simp add: exampleFanoutRunning_def exampleApp_def)
  have failed: "exampleFanoutFailed =
      run_all id (exampleCrawled @ [CacheGetSettled 0 (Inr None),
          FanoutSettled 0 (Inl (ErrorObj ''audit failed''))])
        (mounted (Some ''config'') None 1000 (replicate 60 5))"
    by (simp add: exampleFanoutFailed_def exampleFanoutRunning_def exampleApp_def run_all_def)
  show ?thesis
    using m0 m3 e3 vals
      stage_times_invariant [OF m3 [unfolded run]] stage_times_invariant [OF e3 [unfolded failed]]
    by (simp add: run [symmetric] failed [symmetric])
qed

text \<open>
  C2, counterexample to the claim as stated: after the fan-out is rejected the failure handler
  leaves \<open>technical\<close> in error with no end time, and on a cache hit \<open>rank\<close> is complete
  with an end time and no start time.
\<close>

theorem error_without_endTime_complete_without_startTime:
  "stageTable exampleFanoutFailed ! 3 = (''technical'', Error, Some 1075, None) \<and>
   stageTable exampleCacheHit ! 1 = (''rank'', Complete, None, Some 1045)"
  by code_simp

section \<open>The crawler's progress signal\<close>

lemma progress_quarter: "valueOf (js_times (js_divide 1 4) 100) = 25"
  by code_simp

text \<open>
  C4 (as the code has it). A progress signal (count, total) delivered to the crawl stage of
  an activation sets the stage's progress, whatever it was before: to the double
  \<open>(count / total) * 100\<close> when total > 0, which is the quotient rounded to a double and
  its product with 100 rounded again, and to 0 otherwise. The items processed and the
  total are stored as given.
\<close>

theorem crawl_progress_signal:
  "k < length (runs s) \<Longrightarrow>
   st \<in> set (pipelineStages (step rankUrls (CrawlFrame k p) s)) \<Longrightarrow> sid st = ''crawl'' \<Longrightarrow>
   progress st = (if 0 < p_total p then valueOf (js_times (js_divide (p_count p) (p_total p)) 100) else 0) \<and>
   itemsProcessed st = Some (p_count p) \<and> totalItems st = Some (p_total p)"
  by (auto simp: step_def callback_def crawlFrame_def updateStage_def mergeStage_def noUpdate_def
        orElse_def progressPercent_def)

text \<open>C4, witness: the signal (1, 4) after a submission.\<close>

theorem crawl_progress_signal_witness:
  "0 < length (runs (step id exampleSubmit exampleApp)) \<and>
   pipelineStages exampleQuarter ! 0 \<in> set (pipelineStages exampleQuarter) \<and>
   sid (pipelineStages exampleQuarter ! 0) = ''crawl'' \<and>
   progress (pipelineStages exampleQuarter ! 0) = 25"
proof -
  have h: "0 < length (runs (step id exampleSubmit exampleApp))"
    "pipelineStages exampleQuarter ! 0 \<in> set (pipelineStages exampleQuarter)"
    "sid (pipelineStages exampleQuarter ! 0) = ''crawl''"
    by code_simp+
  show ?thesis
    using h crawl_progress_signal [OF h(1) h(2) [unfolded exampleQuarter_def] h(3) [unfolded exampleQuarter_def]]
    by (simp add: exampleQuarter_def progress_quarter)
qed

text \<open>C4, counterexample to the claim as stated: the progress 50 is not retained by a signal
  whose total is zero, it falls back to 0; and the signal (7, 100) sets the progress to the
  double 7.000000000000001, not to 100 * 7 / 100 = 7.\<close>

theorem progress_regresses_on_zero_total:
  "map_option progress (stageOf ''crawl'' (run_all id
       [exampleSubmit, CrawlFrame 0 \<lparr>p_count = 1, p_total = 2, p_currentSitemap = None\<rparr>] exampleApp))
     = Some 50 \<and>
   map_option progress (stageOf ''crawl'' (run_all id
       [exampleSubmit, CrawlFrame 0 \<lparr>p_count = 1, p_total = 2, p_currentSitemap = None\<rparr>,
        CrawlFrame 0 \<lparr>p_count = 3, p_total = 0, p_currentSitemap = None\<rparr>] exampleApp))
     = Some 0 \<and>
   map_option progress (stageOf ''crawl'' (run_all id
       [exampleSubmit, CrawlFrame 0 \<lparr>p_count = 7, p_total = 100, p_currentSitemap = None\<rparr>] exampleApp))
     = Some (7881299347898369 / 1125899906842624) \<and>
   (7881299347898369 / 1125899906842624 :: rat) \<noteq> 100 * 7 / 100"
  by code_simp

section \<open>Cancellation\<close>

text \<open>
  C1 (the code at a failing input). A crawl issued before the cancellation resolves after
  \<open>handleCancelAnalysis\<close> has reset the pipeline: the reset state (all stages pending, empty
  log, empty accumulator) is changed by the late result, which marks \<open>crawl\<close> complete,
  appends two log entries and sets the discovered-URL count.
\<close>

theorem late_crawl_result_changes_reset_state:
  "stageTable (run_all id [exampleSubmit, Cancel] exampleApp) = stageTable exampleApp \<and>
   activityLog (run_all id [exampleSubmit, Cancel] exampleApp) = [] \<and>
   partialResults (run_all id [exampleSubmit, Cancel] exampleApp) = emptyResults \<and>
   stageTable (run_all id [exampleSubmit, Cancel, CrawlSettled 0 (Inr [''https://example.com/''])] exampleApp) ! 0
     = (''crawl'', Complete, None, Some 1035) \<and>
   map message (activityLog
      (run_all id [exampleSubmit, Cancel, CrawlSettled 0 (Inr [''https://example.com/''])] exampleApp))
     = [''Discovered 1 URLs'', ''Checking for cached analysis...''] \<and>
   urlsDiscovered (partialResults
      (run_all id [exampleSubmit, Cancel, CrawlSettled 0 (Inr [''https://example.com/''])] exampleApp))
     = Some 1"
  by code_simp

section \<open>Resuming an activation\<close>

lemma settle_Inr:
  "settle k a (Inr p, s) =
     s\<lparr>runs := (runs s)[k := a\<lparr>a_pc := p,
                                 a_fanoutIssued := (a_fanoutIssued a \<or> launchesFanout p),
                                 a_planIssued := (a_planIssued a \<or> launchesPlan p)\<rparr>]\<rparr>"
  by (simp add: settle_def)

lemma settle_Inl:
  "settle k a (Inl e, s) = (onRejected a e s)\<lparr>runs := (runs (onRejected a e s))[k := a\<lparr>a_pc := Returned\<rparr>]\<rparr>"
  by (simp add: settle_def Let_def)

lemma onRejected_frame [simp]:
  "runs (onRejected a e s) = runs s"
  "analysisHistory (onRejected a e s) = analysisHistory s"
  "storedHistory (onRejected a e s) = storedHistory s"
  "aiConfig (onRejected a e s) = aiConfig s"
  "isCancelling (onRejected a e s) = isCancelling s"
  "partialResults (onRejected a e s) = partialResults s"
  "partialWrites (onRejected a e s) = partialWrites s"
  by (simp_all add: onRejected_def Let_def)

lemma resume_at:
  "k < length (runs s) \<Longrightarrow> f (runs s ! k) = Some seg \<Longrightarrow>
   resume k f s = settle k (runs s ! k) (seg s)"
  by (simp add: resume_def)

lemma resume_skip:
  "k < length (runs s) \<Longrightarrow> f (runs s ! k) = None \<Longrightarrow> resume k f s = s"
  by (simp add: resume_def)

lemma resume_out: "\<not> k < length (runs s) \<Longrightarrow> resume k f s = s"
  by (simp add: resume_def)

lemma statuses_frame [simp]:
  "statuses (addLog m ty g s) = statuses s"
  "statuses (mergePartialResults w s) = statuses s"
  "statuses (replacePartialResults w s) = statuses s"
  "statuses (stampAnalysisStart s) = statuses s"
  "statuses (finalize a sw an so pl su ok s) = statuses s"
  "statuses (taskStage i msg s) = statuses s"
  "statuses (crawlFrame p s) = statuses s"
  "statuses (s\<lparr>runs := rs\<rparr>) = statuses s"
  "statuses (s\<lparr>error := er\<rparr>) = statuses s"
  "statuses (s\<lparr>appState := ap\<rparr>) = statuses s"
  "statuses (s\<lparr>loadingPhase := lp\<rparr>) = statuses s"
  "statuses (s\<lparr>crawlProgress := cp\<rparr>) = statuses s"
  by (simp_all add: statuses_def taskStage_def crawlFrame_def updateStage_def mergeStage_def
        noUpdate_def comp_def cong: map_cong)

lemma statuses_startStage [simp]:
  "statuses (startStage i task s) = setStatus i Running (statuses s)"
  by (simp add: statuses_def setStatus_def startStage_def updateStage_def mergeStage_def
        noUpdate_def Date_now_def Let_def comp_def)

lemma statuses_completeStage [simp]:
  "statuses (completeStage i s) = setStatus i Complete (statuses s)"
  by (simp add: statuses_def setStatus_def completeStage_def updateStage_def mergeStage_def
        noUpdate_def Date_now_def Let_def comp_def)

lemma statuses_failRunningStages [simp]:
  "statuses (failRunningStages s) =
     map (\<lambda>r. if snd r = Running then (fst r, Error) else r) (statuses s)"
  by (simp add: statuses_def failRunningStages_def comp_def)

lemma statuses_resetPipeline [simp]:
  "statuses (resetPipeline s) =
     [(''crawl'', Pending), (''rank'', Pending), (''competitor'', Pending), (''technical'', Pending),
      (''content'', Pending), (''actionplan'', Pending), (''summary'', Pending)]"
  by (simp add: statuses_def freshStages_def PIPELINE_STAGE_DEFINITIONS_def pendingStage_def)

lemma callback_statuses:
  "statuses (f s) = statuses s \<Longrightarrow> statuses (callback k issued f s) = statuses s"
  by (simp add: callback_def)

lemma callback_runs:
  "runs (f s) = runs s \<Longrightarrow> runs (callback k issued f s) = runs s"
  by (simp add: callback_def)

lemma progress_callbacks [simp]:
  "statuses (auditProgress m s) = statuses s" "runs (auditProgress m s) = runs s"
  "statuses (seoProgress m s) = statuses s" "runs (seoProgress m s) = runs s"
  "statuses (planProgress m s) = statuses s" "runs (planProgress m s) = runs s"
  by (simp_all add: auditProgress_def seoProgress_def planProgress_def)

lemma resume_Returned:
  assumes "allReturned s" and "\<And>a. a_pc a = Returned \<Longrightarrow> f a = None"
  shows "resume k f s = s"
proof (cases "k < length (runs s)")
  case True
  then have "a_pc (runs s ! k) = Returned"
    using assms(1) by (simp add: allReturned_def)
  then show ?thesis using True assms(2) by (simp add: resume_skip)
qed (simp add: resume_out)

lemma quiet_step:
  assumes "allReturned s" and "isCollaborator ev"
  shows "allReturned (step rankUrls ev s) \<and> statuses (step rankUrls ev s) = statuses s"
proof (cases ev)
  case (CrawlFrame k p)
  then show ?thesis using assms(1)
    by (simp add: step_def allReturned_def callback_statuses callback_runs)
next
  case (AuditProgress k m)
  then show ?thesis using assms(1)
    by (simp add: step_def allReturned_def callback_statuses callback_runs)
next
  case (SeoProgress k m)
  then show ?thesis using assms(1)
    by (simp add: step_def allReturned_def callback_statuses callback_runs)
next
  case (PlanProgress k m)
  then show ?thesis using assms(1)
    by (simp add: step_def allReturned_def callback_statuses callback_runs)
next
  case (CrawlSettled k r)
  then show ?thesis using assms(1) by (simp add: step_def resume_Returned)
next
  case (CacheGetSettled k r)
  then show ?thesis using assms(1) by (simp add: step_def resume_Returned)
next
  case (FanoutSettled k r)
  then show ?thesis using assms(1) by (simp add: step_def resume_Returned)
next
  case (CacheSetSettled k r)
  then show ?thesis using assms(1) by (simp add: step_def resume_Returned)
next
  case (PlanSettled k r)
  then show ?thesis using assms(1) by (simp add: step_def resume_Returned)
next
  case (SummarySettled k r ok)
  then show ?thesis using assms(1) by (simp add: step_def resume_Returned)
qed (use assms(2) in \<open>simp_all add: isCollaborator_def\<close>)

lemma quiet_run_all:
  assumes "allReturned s" and "\<forall>ev \<in> set evs. isCollaborator ev"
  shows "allReturned (run_all rankUrls evs s) \<and> statuses (run_all rankUrls evs s) = statuses s"
  using assms
proof (induction evs arbitrary: s)
  case Nil
  then show ?case by (simp add: run_all_def)
next
  case (Cons ev evs)
  from quiet_step [of s ev rankUrls] Cons.prems
  have 1: "allReturned (step rankUrls ev s)" and 2: "statuses (step rankUrls ev s) = statuses s"
    by simp_all
  from Cons.IH [OF 1] Cons.prems(2) 2 show ?case
    by (simp add: run_all_def)
qed

text \<open>The state that a valid submission leaves.\<close>

lemma submit_valid:
  assumes "d_sitemapUrl d \<noteq> []" and "aiConfig s = Some cfg"
  shows "runs (step rankUrls (Submit d (Some u)) s) =
           runs s @ [\<lparr>a_data = d, a_aiConfig = cfg, a_history = analysisHistory s,
                       a_isCancelling = isCancelling s,
                       a_competitorUrls = competitorUrlsOf (d_competitorSitemaps d),
                       a_fanoutIssued = False, a_planIssued = False, a_pc = AwaitCrawl\<rparr>]"
    and "statuses (step rankUrls (Submit d (Some u)) s) = setStatus ''crawl'' Running pendingStatuses"
    and "analysisHistory (step rankUrls (Submit d (Some u)) s) = analysisHistory s"
    and "storedHistory (step rankUrls (Submit d (Some u)) s) = storedHistory s"
    and "aiConfig (step rankUrls (Submit d (Some u)) s) = aiConfig s"
    and "isCancelling (step rankUrls (Submit d (Some u)) s) = isCancelling s"
    and "partialResults (step rankUrls (Submit d (Some u)) s) = emptyResults"
    and "partialWrites (step rankUrls (Submit d (Some u)) s) = []"
  using assms by (simp_all add: step_def handleSubmit_def Let_def pendingStatuses_def)

lemma run_all_append:
  "run_all rankUrls (xs @ ys) s = run_all rankUrls ys (run_all rankUrls xs s)"
  by (simp add: run_all_def)

lemma run_all_Cons:
  "run_all rankUrls (x # xs) s = run_all rankUrls xs (step rankUrls x s)"
  by (simp add: run_all_def)

lemma run_all_Nil: "run_all rankUrls [] s = s"
  by (simp add: run_all_def)

lemma callback_frame:
  "analysisHistory (f s) = analysisHistory s \<Longrightarrow>
     analysisHistory (callback k issued f s) = analysisHistory s"
  "storedHistory (f s) = storedHistory s \<Longrightarrow>
     storedHistory (callback k issued f s) = storedHistory s"
  "appState (f s) = appState s \<Longrightarrow> appState (callback k issued f s) = appState s"
  "error (f s) = error s \<Longrightarrow> error (callback k issued f s) = error s"
  "aiConfig (f s) = aiConfig s \<Longrightarrow> aiConfig (callback k issued f s) = aiConfig s"
  "isCancelling (f s) = isCancelling s \<Longrightarrow> isCancelling (callback k issued f s) = isCancelling s"
  by (simp_all add: callback_def)

lemma progress_callbacks_frame [simp]:
  "analysisHistory (auditProgress m s) = analysisHistory s"
  "storedHistory (auditProgress m s) = storedHistory s"
  "appState (auditProgress m s) = appState s"
  "error (auditProgress m s) = error s"
  "analysisHistory (seoProgress m s) = analysisHistory s"
  "storedHistory (seoProgress m s) = storedHistory s"
  "appState (seoProgress m s) = appState s"
  "error (seoProgress m s) = error s"
  "analysisHistory (planProgress m s) = analysisHistory s"
  "storedHistory (planProgress m s) = storedHistory s"
  "appState (planProgress m s) = appState s"
  "error (planProgress m s) = error s"
  "aiConfig (auditProgress m s) = aiConfig s" "isCancelling (auditProgress m s) = isCancelling s"
  "aiConfig (seoProgress m s) = aiConfig s" "isCancelling (seoProgress m s) = isCancelling s"
  "aiConfig (planProgress m s) = aiConfig s" "isCancelling (planProgress m s) = isCancelling s"
  by (simp_all add: auditProgress_def seoProgress_def planProgress_def)

text \<open>A progress callback changes neither the activations nor the status of a stage, the
  history, the screen or the error message.\<close>

lemma callback_step:
  assumes "isCallback ev"
  shows "runs (step rankUrls ev s) = runs s" "statuses (step rankUrls ev s) = statuses s"
    "analysisHistory (step rankUrls ev s) = analysisHistory s"
    "storedHistory (step rankUrls ev s) = storedHistory s"
    "appState (step rankUrls ev s) = appState s" "error (step rankUrls ev s) = error s"
    "aiConfig (step rankUrls ev s) = aiConfig s" "isCancelling (step rankUrls ev s) = isCancelling s"
  using assms
  by (cases ev; simp add: isCallback_def step_def callback_runs callback_statuses callback_frame)+

lemma callbacks_run_all:
  assumes "\<forall>ev \<in> set evs. isCallback ev"
  shows "runs (run_all rankUrls evs s) = runs s \<and> statuses (run_all rankUrls evs s) = statuses s \<and>
    analysisHistory (run_all rankUrls evs s) = analysisHistory s \<and>
    storedHistory (run_all rankUrls evs s) = storedHistory s \<and>
    appState (run_all rankUrls evs s) = appState s \<and> error (run_all rankUrls evs s) = error s \<and>
    aiConfig (run_all rankUrls evs s) = aiConfig s \<and>
    isCancelling (run_all rankUrls evs s) = isCancelling s"
  using assms
proof (induction evs arbitrary: s)
  case Nil
  show ?case by (simp add: run_all_Nil)
next
  case (Cons ev evs)
  then have "isCallback ev" and rest: "\<forall>ev \<in> set evs. isCallback ev" by simp_all
  from callback_step [OF this(1), of rankUrls s] Cons.IH [OF rest, of "step rankUrls ev s"]
  show ?case by (simp add: run_all_Cons)
qed

lemma tracked_callbacks:
  "tracked k d H p sts s \<Longrightarrow> \<forall>ev \<in> set evs. isCallback ev \<Longrightarrow>
   tracked k d H p sts (run_all rankUrls evs s)"
  using callbacks_run_all [of evs rankUrls s] by (simp add: tracked_def)

lemma tracked_submit:
  assumes "d_sitemapUrl d \<noteq> []" and "aiConfig s \<noteq> None" and "\<not> isCancelling s"
    and "\<forall>a \<in> set (runs s). a_pc a = Returned"
  shows "tracked (length (runs s)) d (analysisHistory s) AwaitCrawl
           (setStatus ''crawl'' Running pendingStatuses) (step rankUrls (Submit d (Some u)) s)"
proof -
  from assms(2) obtain cfg where cfg: "aiConfig s = Some cfg" by auto
  show ?thesis
    using submit_valid [OF assms(1) cfg, of rankUrls u] assms(3,4) cfg
    by (simp add: tracked_def nth_append)
qed

lemma tracked_settle:
  assumes "tracked k d H p sts s"
    and "runs s' = runs s" and "statuses s' = sts'" and "analysisHistory s' = analysisHistory s"
    and "isCancelling s' = isCancelling s" and "aiConfig s' = aiConfig s"
  shows "tracked k d H p' sts' (settle k (runs s ! k) (Inr p', s'))"
  using assms by (simp add: settle_Inr tracked_def nth_list_update)

text \<open>An awaited promise settles at the place where the activation waits for it.\<close>

lemma step_at:
  assumes "k < length (runs s)"
  shows "a_pc (runs s ! k) = AwaitCrawl \<Longrightarrow>
      step rankUrls (CrawlSettled k r1) s = settle k (runs s ! k) (awaited r1 afterCrawl s)"
    and "a_pc (runs s ! k) = AwaitCacheGet urls \<Longrightarrow>
      step rankUrls (CacheGetSettled k r2) s = settle k (runs s ! k)
        (awaited r2 (\<lambda>cachedAnalysis. case cachedAnalysis of
                       Some c \<Rightarrow> afterCacheHit urls c
                     | None \<Rightarrow> afterCacheMiss rankUrls urls) s)"
    and "a_pc (runs s ! k) = AwaitFanout urls \<Longrightarrow>
      step rankUrls (FanoutSettled k r3) s = settle k (runs s ! k)
        (awaited r3 (\<lambda>v. case v of (sitewide, analysis, srcs) \<Rightarrow>
                       afterFanout sitewide analysis srcs) s)"
    and "a_pc (runs s ! k) = AwaitCacheSet sw an so \<Longrightarrow>
      step rankUrls (CacheSetSettled k r4) s = settle k (runs s ! k)
        (awaited r4 (\<lambda>_. afterCacheSet sw an so) s)"
    and "a_pc (runs s ! k) = HitAwaitPlan c \<Longrightarrow>
      step rankUrls (PlanSettled k r5) s = settle k (runs s ! k)
        (awaited r5 (\<lambda>plan s'.
                       (Inr (HitAwaitSummary c plan),
                        afterPlan ''Action plan generated'' ''Creating 80/20 analysis...'' plan s')) s)"
    and "a_pc (runs s ! k) = AwaitPlan sw an so \<Longrightarrow>
      step rankUrls (PlanSettled k r5) s = settle k (runs s ! k)
        (awaited r5 (\<lambda>plan s'.
                       (Inr (AwaitSummary sw an so plan),
                        afterPlan ''Action plan generated successfully''
                          ''Generating 80/20 analysis...'' plan s')) s)"
    and "a_pc (runs s ! k) = HitAwaitSummary c pl \<Longrightarrow>
      step rankUrls (SummarySettled k r6 ok) s = settle k (runs s ! k)
        (awaited r6 (\<lambda>summary. afterSummaryHit (runs s ! k) c pl summary ok) s)"
    and "a_pc (runs s ! k) = AwaitSummary sw an so pl \<Longrightarrow>
      step rankUrls (SummarySettled k r6 ok) s = settle k (runs s ! k)
        (awaited r6 (\<lambda>summary. afterSummaryMiss (runs s ! k) sw an so pl summary ok) s)"
  using assms by (simp_all add: step_def resume_def Let_def)

lemma tracked_k: "tracked k d H p sts s \<Longrightarrow> k < length (runs s)"
  by (simp add: tracked_def)

lemma tracked_pc: "tracked k d H p sts s \<Longrightarrow> a_pc (runs s ! k) = p"
  by (simp add: tracked_def)

lemma tracked_statuses: "tracked k d H p sts s \<Longrightarrow> statuses s = sts"
  by (simp add: tracked_def)

lemma tracked_crawl:
  assumes "tracked k d H AwaitCrawl sts s" and "urls \<noteq> []"
  shows "tracked k d H (AwaitCacheGet urls) (setStatus ''crawl'' Complete sts)
           (step rankUrls (CrawlSettled k (Inr urls)) s)"
  unfolding step_at(1) [OF tracked_k [OF assms(1)] tracked_pc [OF assms(1)]]
  using assms(2) tracked_statuses [OF assms(1)]
  by (simp add: awaited_def afterCrawl_def Let_def tracked_settle [OF assms(1)])

lemma tracked_cacheHit:
  assumes "tracked k d H (AwaitCacheGet urls) sts s"
  shows "tracked k d H (HitAwaitPlan c)
           (setStatus ''actionplan'' Running (setStatus ''content'' Complete
             (setStatus ''technical'' Complete (setStatus ''competitor'' Complete
               (setStatus ''rank'' Complete sts)))))
           (step rankUrls (CacheGetSettled k (Inr (Some c))) s)"
  unfolding step_at(2) [OF tracked_k [OF assms(1)] tracked_pc [OF assms(1)]]
  using tracked_statuses [OF assms(1)]
  by (simp add: awaited_def afterCacheHit_def Let_def tracked_settle [OF assms(1)])

lemma tracked_cacheMiss:
  assumes "tracked k d H (AwaitCacheGet urls) sts s"
  shows "tracked k d H (AwaitFanout urls)
           (setStatus ''content'' Running (setStatus ''technical'' Running
             (setStatus ''competitor'' Running (setStatus ''rank'' Complete
               (setStatus ''rank'' Running sts)))))
           (step rankUrls (CacheGetSettled k (Inr None)) s)"
  unfolding step_at(2) [OF tracked_k [OF assms(1)] tracked_pc [OF assms(1)]]
  using tracked_statuses [OF assms(1)]
  by (simp add: awaited_def afterCacheMiss_def Let_def tracked_settle [OF assms(1)])

lemma tracked_fanout:
  assumes "tracked k d H (AwaitFanout urls) sts s"
  shows "tracked k d H (AwaitCacheSet sw an so)
           (setStatus ''content'' Complete (setStatus ''technical'' Complete
             (setStatus ''competitor'' Complete sts)))
           (step rankUrls (FanoutSettled k (Inr (sw, an, so))) s)"
  unfolding step_at(3) [OF tracked_k [OF assms(1)] tracked_pc [OF assms(1)]]
  using tracked_statuses [OF assms(1)]
  by (simp add: awaited_def afterFanout_def Let_def tracked_settle [OF assms(1)])

lemma tracked_cacheSet:
  assumes "tracked k d H (AwaitCacheSet sw an so) sts s"
  shows "tracked k d H (AwaitPlan sw an so) (setStatus ''actionplan'' Running sts)
           (step rankUrls (CacheSetSettled k (Inr ())) s)"
  unfolding step_at(4) [OF tracked_k [OF assms(1)] tracked_pc [OF assms(1)]]
  using tracked_statuses [OF assms(1)]
  by (simp add: awaited_def afterCacheSet_def Let_def tracked_settle [OF assms(1)])

lemma tracked_planHit:
  assumes "tracked k d H (HitAwaitPlan c) sts s"
  shows "tracked k d H (HitAwaitSummary c pl)
           (setStatus ''summary'' Running (setStatus ''actionplan'' Complete sts))
           (step rankUrls (PlanSettled k (Inr pl)) s)"
  unfolding step_at(5) [OF tracked_k [OF assms(1)] tracked_pc [OF assms(1)]]
  using tracked_statuses [OF assms(1)]
  by (simp add: awaited_def afterPlan_def Let_def tracked_settle [OF assms(1)])

lemma tracked_planMiss:
  assumes "tracked k d H (AwaitPlan sw an so) sts s"
  shows "tracked k d H (AwaitSummary sw an so pl)
           (setStatus ''summary'' Running (setStatus ''actionplan'' Complete sts))
           (step rankUrls (PlanSettled k (Inr pl)) s)"
  unfolding step_at(6) [OF tracked_k [OF assms(1)] tracked_pc [OF assms(1)]]
  using tracked_statuses [OF assms(1)]
  by (simp add: awaited_def afterPlan_def Let_def tracked_settle [OF assms(1)])

lemma allReturned_update:
  assumes "length rs = Suc k" and "\<forall>j < k. a_pc (rs ! j) = Returned" and "a_pc a = Returned"
  shows "\<forall>x \<in> set (rs[k := a]). a_pc x = Returned"
proof
  fix x assume "x \<in> set (rs[k := a])"
  then obtain j where j: "j < length (rs[k := a])" "x = rs[k := a] ! j"
    by (auto simp: in_set_conv_nth)
  show "a_pc x = Returned"
  proof (cases "j = k")
    case True
    then show ?thesis using j assms(1,3) by simp
  next
    case False
    then have "j < k" using j(1) assms(1) by simp
    then show ?thesis using j False assms(2) by simp
  qed
qed

lemma finalize_history:
  "analysisHistory (finalize a sw an so pl su ok s) \<noteq> [] \<and>
   hd (analysisHistory (finalize a sw an so pl su ok s))\<lparr>h_id := 0, h_date := 0\<rparr> =
     (newAnalysisOf a 0 0 sw an so pl su) \<and>
   analysisHistory (finalize a sw an so pl su ok s) =
     take 10 (hd (analysisHistory (finalize a sw an so pl su ok s)) # a_history a) \<and>
   (ok \<longrightarrow> storedHistory (finalize a sw an so pl su ok s) =
     Some (analysisHistory (finalize a sw an so pl su ok s))) \<and>
   selectedAnalysisId (finalize a sw an so pl su ok s) =
     Some (h_id (hd (analysisHistory (finalize a sw an so pl su ok s))))"
  by (simp add: finalize_def Date_now_def Let_def updatedHistoryOf_def newAnalysisOf_def)

lemma tracked_finalized:
  assumes "tracked k d H p sts s"
    and "runs s1 = runs s" and "statuses s1 = sts1" and "isCancelling s1 = isCancelling s"
    and "aiConfig s1 = aiConfig s"
  shows "finished k (expectedRecord d sw an so pl su) H ok sts1
           (settle k (runs s ! k) (Inr Returned, finalize (runs s ! k) sw an so pl su ok s1))"
proof -
  have a: "a_data (runs s ! k) = d" "a_history (runs s ! k) = H"
    "a_competitorUrls (runs s ! k) = competitorUrlsOf (d_competitorSitemaps d)"
    "length (runs s) = Suc k" "\<forall>j < k. a_pc (runs s ! j) = Returned"
    "\<not> isCancelling s" "aiConfig s \<noteq> None"
    using assms(1) by (simp_all add: tracked_def)
  have "\<forall>x \<in> set ((runs s)[k := (runs s ! k)\<lparr>a_pc := Returned,
            a_fanoutIssued := a_fanoutIssued (runs s ! k) \<or> launchesFanout Returned,
            a_planIssued := a_planIssued (runs s ! k) \<or> launchesPlan Returned\<rparr>]). a_pc x = Returned"
    by (rule allReturned_update [OF a(4,5)]) simp
  then have ret: "allReturned (settle k (runs s ! k) (Inr Returned, finalize (runs s ! k) sw an so pl su ok s1))"
    by (simp add: allReturned_def settle_Inr assms(2))
  show ?thesis
    using finalize_history [of "runs s ! k" sw an so pl su ok s1] a ret assms(2-5)
    by (simp add: finished_def settle_Inr anonymous_def expectedRecord_def newAnalysisOf_def)
qed

lemma tracked_summaryHit:
  assumes "tracked k d H (HitAwaitSummary c pl) sts s"
  shows "finished k (expectedRecord d (c_sitewide c) (c_seo c) [] pl su) H ok
           (setStatus ''summary'' Complete sts) (step rankUrls (SummarySettled k (Inr su) ok) s)"
  unfolding step_at(7) [OF tracked_k [OF assms(1)] tracked_pc [OF assms(1)]]
  using tracked_statuses [OF assms(1)]
  by (simp add: awaited_def afterSummaryHit_def Let_def tracked_finalized [OF assms(1)])

lemma tracked_summaryMiss:
  assumes "tracked k d H (AwaitSummary sw an so pl) sts s"
  shows "finished k (expectedRecord d sw an so pl su) H ok
           (setStatus ''summary'' Complete sts) (step rankUrls (SummarySettled k (Inr su) ok) s)"
  unfolding step_at(8) [OF tracked_k [OF assms(1)] tracked_pc [OF assms(1)]]
  using tracked_statuses [OF assms(1)]
  by (simp add: awaited_def afterSummaryMiss_def Let_def tracked_finalized [OF assms(1)])

lemma tracked_rejected:
  assumes "tracked k d H p sts s"
    and "runs s1 = runs s" and "statuses s1 = sts1" and "isCancelling s1 = isCancelling s"
    and "aiConfig s1 = aiConfig s" and "analysisHistory s1 = analysisHistory s"
  shows "failed k e H sts1 (settle k (runs s ! k) (Inl e, s1))"
proof -
  have a: "length (runs s) = Suc k" "\<forall>j < k. a_pc (runs s ! j) = Returned"
    "\<not> isCancelling s" "aiConfig s \<noteq> None" "\<not> a_isCancelling (runs s ! k)" "analysisHistory s = H"
    using assms(1) by (simp_all add: tracked_def)
  have "\<forall>x \<in> set ((runs s)[k := (runs s ! k)\<lparr>a_pc := Returned\<rparr>]). a_pc x = Returned"
    by (rule allReturned_update [OF a(1,2)]) simp
  then have ret: "allReturned (settle k (runs s ! k) (Inl e, s1))"
    by (simp add: allReturned_def settle_Inl assms(2))
  have "appState (onRejected (runs s ! k) e s1) = AppError"
    "error (onRejected (runs s ! k) e s1) = Some (errorMessageOf e)"
    "statuses (onRejected (runs s ! k) e s1) = failRunning sts1"
    using a(5) assms(3) by (simp_all add: onRejected_def Let_def errorMessageOf_def failRunning_def)
  then show ?thesis
    using a ret assms(2-6) by (simp add: failed_def settle_Inl)
qed

lemma tracked_emptyCrawl:
  assumes "tracked k d H AwaitCrawl sts s"
  shows "failed k (ErrorObj ''Crawl complete, but no URLs were found. Your sitemap might be empty or in a format that could not be parsed.'') H
           (setStatus ''crawl'' Complete sts) (step rankUrls (CrawlSettled k (Inr [])) s)"
  unfolding step_at(1) [OF tracked_k [OF assms(1)] tracked_pc [OF assms(1)]]
  using tracked_statuses [OF assms(1)]
  by (simp add: awaited_def afterCrawl_def Let_def tracked_rejected [OF assms(1)])

lemma tracked_cacheSetRejected:
  assumes "tracked k d H (AwaitCacheSet sw an so) sts s"
  shows "failed k e H sts (step rankUrls (CacheSetSettled k (Inl e)) s)"
  unfolding step_at(4) [OF tracked_k [OF assms(1)] tracked_pc [OF assms(1)]]
  using tracked_statuses [OF assms(1)]
  by (simp add: awaited_def tracked_rejected [OF assms(1)])

section \<open>Traces of one run\<close>

text \<open>A trace whose events other than progress callbacks are \<open>x # xs\<close>: it runs some
  callbacks, then \<open>x\<close>, then a trace whose other events are \<open>xs\<close>.\<close>

lemma peel:
  assumes "filter (\<lambda>ev. \<not> isCallback ev) evs = x # xs"
  obtains us vs where "evs = us @ x # vs" and "\<forall>u \<in> set us. isCallback u"
    and "filter (\<lambda>ev. \<not> isCallback ev) vs = xs"
  using assms by (auto simp: filter_eq_Cons_iff)

lemma peel_tracked:
  assumes f: "filter (\<lambda>ev. \<not> isCallback ev) evs = x # xs"
    and t: "tracked k d H p sts s"
  obtains vs s' where "run_all rankUrls evs s = run_all rankUrls vs (step rankUrls x s')"
    and "tracked k d H p sts s'"
    and "filter (\<lambda>ev. \<not> isCallback ev) vs = xs"
proof -
  from f obtain us vs where evs: "evs = us @ x # vs" and us: "\<forall>u \<in> set us. isCallback u"
    and vs: "filter (\<lambda>ev. \<not> isCallback ev) vs = xs"
    by (rule peel)
  show thesis
  proof (rule that)
    show "run_all rankUrls evs s = run_all rankUrls vs (step rankUrls x (run_all rankUrls us s))"
      by (simp add: evs run_all_append run_all_Cons)
    show "tracked k d H p sts (run_all rankUrls us s)"
      by (rule tracked_callbacks [OF t us])
    show "filter (\<lambda>ev. \<not> isCallback ev) vs = xs" by (rule vs)
  qed
qed

lemma peel_submit:
  assumes f: "filter (\<lambda>ev. \<not> isCallback ev) evs = Submit d (Some u) # xs"
    and valid: "d_sitemapUrl d \<noteq> []" "aiConfig s \<noteq> None" "\<not> isCancelling s"
    and quiet: "\<forall>a \<in> set (runs s). a_pc a = Returned"
  obtains vs s' where "run_all rankUrls evs s = run_all rankUrls vs s'"
    and "tracked (length (runs s)) d (analysisHistory s) AwaitCrawl
           (setStatus ''crawl'' Running pendingStatuses) s'"
    and "filter (\<lambda>ev. \<not> isCallback ev) vs = xs"
proof -
  from f obtain us vs where evs: "evs = us @ Submit d (Some u) # vs"
    and us: "\<forall>u \<in> set us. isCallback u"
    and vs: "filter (\<lambda>ev. \<not> isCallback ev) vs = xs"
    by (rule peel)
  let ?s = "run_all rankUrls us s"
  have same: "runs ?s = runs s" "analysisHistory ?s = analysisHistory s"
    "aiConfig ?s = aiConfig s" "isCancelling ?s = isCancelling s" "storedHistory ?s = storedHistory s"
    using callbacks_run_all [OF us, of rankUrls s] by simp_all
  have tr: "tracked (length (runs ?s)) d (analysisHistory ?s) AwaitCrawl
           (setStatus ''crawl'' Running pendingStatuses) (step rankUrls (Submit d (Some u)) ?s)"
    by (rule tracked_submit) (use valid quiet same in simp_all)
  obtain cfg where cfg: "aiConfig ?s = Some cfg" using valid(2) same by auto
  show thesis
  proof (rule that)
    show "run_all rankUrls evs s = run_all rankUrls vs (step rankUrls (Submit d (Some u)) ?s)"
      by (simp add: evs run_all_append run_all_Cons)
    show "tracked (length (runs s)) d (analysisHistory s) AwaitCrawl
           (setStatus ''crawl'' Running pendingStatuses) (step rankUrls (Submit d (Some u)) ?s)"
      using tr by (simp add: same)
    show "filter (\<lambda>ev. \<not> isCallback ev) vs = xs" by (rule vs)
  qed
qed

lemma peel_end:
  assumes "filter (\<lambda>ev. \<not> isCallback ev) evs = []"
  shows "runs (run_all rankUrls evs s) = runs s \<and> statuses (run_all rankUrls evs s) = statuses s \<and>
    analysisHistory (run_all rankUrls evs s) = analysisHistory s \<and>
    storedHistory (run_all rankUrls evs s) = storedHistory s \<and>
    appState (run_all rankUrls evs s) = appState s \<and> error (run_all rankUrls evs s) = error s \<and>
    aiConfig (run_all rankUrls evs s) = aiConfig s \<and>
    isCancelling (run_all rankUrls evs s) = isCancelling s"
  by (rule callbacks_run_all) (use assms in \<open>simp add: filter_empty_conv\<close>)

lemma failed_end:
  assumes "failed k e H sts s" and "filter (\<lambda>ev. \<not> isCallback ev) evs = []"
  shows "failed k e H sts (run_all rankUrls evs s)"
  using assms(1) peel_end [OF assms(2), of rankUrls s] by (simp add: failed_def allReturned_def)

lemma isCallback_isCollaborator: "isCallback ev \<Longrightarrow> isCollaborator ev"
  by (cases ev) (simp_all add: isCallback_def isCollaborator_def)

section \<open>Runs that fail\<close>

text \<open>
  C5 holds of a run that no other run overlaps. A run is submitted (valid input,
  configured provider) while no other run is in flight; its crawl resolves with zero URLs, with any progress callbacks before and after. Then the
  application is on the error screen with the message of the empty-result condition, the
  crawl stage is complete, and every later stage is pending and stays pending under every
  further collaborator event \<open>post\<close>.
\<close>

theorem empty_crawl_fails_run:
  assumes script: "filter (\<lambda>ev. \<not> isCallback ev) evs =
      [Submit d (Some u), CrawlSettled (length (runs s0)) (Inr [])]"
    and valid: "d_sitemapUrl d \<noteq> []" "aiConfig s0 \<noteq> None" "\<not> isCancelling s0"
    and quiet: "\<forall>a \<in> set (runs s0). a_pc a = Returned"
    and post: "\<forall>ev \<in> set post. isCollaborator ev"
  shows "appState (run_all rankUrls evs s0) = AppError \<and>
         error (run_all rankUrls evs s0) =
           Some ''Crawl complete, but no URLs were found. Your sitemap might be empty or in a format that could not be parsed.'' \<and>
         statuses (run_all rankUrls evs s0) =
           [(''crawl'', Complete), (''rank'', Pending), (''competitor'', Pending),
            (''technical'', Pending), (''content'', Pending), (''actionplan'', Pending),
            (''summary'', Pending)] \<and>
         statuses (run_all rankUrls (evs @ post) s0) =
           [(''crawl'', Complete), (''rank'', Pending), (''competitor'', Pending),
            (''technical'', Pending), (''content'', Pending), (''actionplan'', Pending),
            (''summary'', Pending)]"
proof -
  let ?k = "length (runs s0)"
  from script valid quiet obtain e1 s1 where
    r1: "run_all rankUrls evs s0 = run_all rankUrls e1 s1"
    and t1: "tracked ?k d (analysisHistory s0) AwaitCrawl (setStatus ''crawl'' Running pendingStatuses) s1"
    and f1: "filter (\<lambda>ev. \<not> isCallback ev) e1 = [CrawlSettled ?k (Inr [])]"
    by (rule peel_submit)
  from f1 t1 obtain e2 s2 where
    r2: "run_all rankUrls e1 s1 = run_all rankUrls e2 (step rankUrls (CrawlSettled ?k (Inr [])) s2)"
    and t2: "tracked ?k d (analysisHistory s0) AwaitCrawl (setStatus ''crawl'' Running pendingStatuses) s2"
    and f2: "filter (\<lambda>ev. \<not> isCallback ev) e2 = []"
    by (rule peel_tracked)
  have fin: "failed ?k (ErrorObj ''Crawl complete, but no URLs were found. Your sitemap might be empty or in a format that could not be parsed.'')
      (analysisHistory s0) (setStatus ''crawl'' Complete (setStatus ''crawl'' Running pendingStatuses))
      (run_all rankUrls evs s0)"
    unfolding r1 r2 by (rule failed_end [OF tracked_emptyCrawl [OF t2] f2])
  then have ret: "allReturned (run_all rankUrls evs s0)" by (simp add: failed_def)
  from quiet_run_all [OF ret post, of rankUrls]
  have "statuses (run_all rankUrls (evs @ post) s0) = statuses (run_all rankUrls evs s0)"
    by (simp add: run_all_append)
  with fin show ?thesis
    by (simp add: failed_def errorMessageOf_def failRunning_def setStatus_def pendingStatuses_def)
qed

lemma finished_end:
  assumes "finished k r H ok sts s" and "filter (\<lambda>ev. \<not> isCallback ev) evs = []"
  shows "finished k r H ok sts (run_all rankUrls evs s)"
  using assms(1) peel_end [OF assms(2), of rankUrls s] by (simp add: finished_def allReturned_def)

text \<open>A whole run on the cache-hit path, with progress callbacks anywhere in between.\<close>

lemma hit_run:
  assumes script: "filter (\<lambda>ev. \<not> isCallback ev) evs =
      [Submit d (Some u), CrawlSettled (length (runs s0)) (Inr urls),
       CacheGetSettled (length (runs s0)) (Inr (Some c)),
       PlanSettled (length (runs s0)) (Inr pl), SummarySettled (length (runs s0)) (Inr su) ok]"
    and valid: "d_sitemapUrl d \<noteq> []" "aiConfig s0 \<noteq> None" "\<not> isCancelling s0"
    and quiet: "\<forall>a \<in> set (runs s0). a_pc a = Returned"
    and urls: "urls \<noteq> []"
  shows "finished (length (runs s0)) (expectedRecord d (c_sitewide c) (c_seo c) [] pl su)
           (analysisHistory s0) ok allComplete (run_all rankUrls evs s0)"
proof -
  let ?k = "length (runs s0)" and ?H = "analysisHistory s0"
  from script valid quiet obtain e1 s1 where
    r1: "run_all rankUrls evs s0 = run_all rankUrls e1 s1"
    and t1: "tracked ?k d ?H AwaitCrawl (setStatus ''crawl'' Running pendingStatuses) s1"
    and f1: "filter (\<lambda>ev. \<not> isCallback ev) e1 =
      [CrawlSettled ?k (Inr urls), CacheGetSettled ?k (Inr (Some c)),
       PlanSettled ?k (Inr pl), SummarySettled ?k (Inr su) ok]"
    by (rule peel_submit)
  from f1 t1 obtain e2 s2 where
    r2: "run_all rankUrls e1 s1 = run_all rankUrls e2 (step rankUrls (CrawlSettled ?k (Inr urls)) s2)"
    and t2: "tracked ?k d ?H AwaitCrawl (setStatus ''crawl'' Running pendingStatuses) s2"
    and f2: "filter (\<lambda>ev. \<not> isCallback ev) e2 =
      [CacheGetSettled ?k (Inr (Some c)), PlanSettled ?k (Inr pl), SummarySettled ?k (Inr su) ok]"
    by (rule peel_tracked)
  note t2' = tracked_crawl [OF t2 urls, of rankUrls]
  from f2 t2' obtain e3 s3 where
    r3: "run_all rankUrls e2 (step rankUrls (CrawlSettled ?k (Inr urls)) s2) =
         run_all rankUrls e3 (step rankUrls (CacheGetSettled ?k (Inr (Some c))) s3)"
    and t3: "tracked ?k d ?H (AwaitCacheGet urls)
               (setStatus ''crawl'' Complete (setStatus ''crawl'' Running pendingStatuses)) s3"
    and f3: "filter (\<lambda>ev. \<not> isCallback ev) e3 =
      [PlanSettled ?k (Inr pl), SummarySettled ?k (Inr su) ok]"
    by (rule peel_tracked)
  note t3' = tracked_cacheHit [OF t3, of c rankUrls]
  from f3 t3' obtain e4 s4 where
    r4: "run_all rankUrls e3 (step rankUrls (CacheGetSettled ?k (Inr (Some c))) s3) =
         run_all rankUrls e4 (step rankUrls (PlanSettled ?k (Inr pl)) s4)"
    and t4: "tracked ?k d ?H (HitAwaitPlan c)
               (setStatus ''actionplan'' Running (setStatus ''content'' Complete
                 (setStatus ''technical'' Complete (setStatus ''competitor'' Complete
                   (setStatus ''rank'' Complete
                     (setStatus ''crawl'' Complete (setStatus ''crawl'' Running pendingStatuses))))))) s4"
    and f4: "filter (\<lambda>ev. \<not> isCallback ev) e4 = [SummarySettled ?k (Inr su) ok]"
    by (rule peel_tracked)
  note t4' = tracked_planHit [OF t4, of pl rankUrls]
  from f4 t4' obtain e5 s5 where
    r5: "run_all rankUrls e4 (step rankUrls (PlanSettled ?k (Inr pl)) s4) =
         run_all rankUrls e5 (step rankUrls (SummarySettled ?k (Inr su) ok) s5)"
    and t5: "tracked ?k d ?H (HitAwaitSummary c pl)
               (setStatus ''summary'' Running (setStatus ''actionplan'' Complete
               (setStatus ''actionplan'' Running (setStatus ''content'' Complete
                 (setStatus ''technical'' Complete (setStatus ''competitor'' Complete
                   (setStatus ''rank'' Complete
                     (setStatus ''crawl'' Complete (setStatus ''crawl'' Running pendingStatuses))))))))) s5"
    and f5: "filter (\<lambda>ev. \<not> isCallback ev) e5 = []"
    by (rule peel_tracked)
  have "finished ?k (expectedRecord d (c_sitewide c) (c_seo c) [] pl su) ?H ok
      (setStatus ''summary'' Complete (setStatus ''summary'' Running (setStatus ''actionplan'' Complete
               (setStatus ''actionplan'' Running (setStatus ''content'' Complete
                 (setStatus ''technical'' Complete (setStatus ''competitor'' Complete
                   (setStatus ''rank'' Complete
                     (setStatus ''crawl'' Complete (setStatus ''crawl'' Running pendingStatuses))))))))))
      (run_all rankUrls evs s0)"
    unfolding r1 r2 r3 r4 r5 by (rule finished_end [OF tracked_summaryHit [OF t5] f5])
  then show ?thesis
    by (simp add: setStatus_def pendingStatuses_def allComplete_def)
qed

lemma advance:
  assumes f: "filter (\<lambda>ev. \<not> isCallback ev) evs = x # xs"
    and t: "tracked k d H p sts s"
    and tr: "\<And>s'. tracked k d H p sts s' \<Longrightarrow> tracked k d H p' sts' (step rankUrls x s')"
  obtains vs s'' where "run_all rankUrls evs s = run_all rankUrls vs s''"
    and "tracked k d H p' sts' s''" and "filter (\<lambda>ev. \<not> isCallback ev) vs = xs"
proof -
  from f t obtain vs s' where 1: "run_all rankUrls evs s = run_all rankUrls vs (step rankUrls x s')"
    and 2: "tracked k d H p sts s'" and 3: "filter (\<lambda>ev. \<not> isCallback ev) vs = xs"
    by (rule peel_tracked)
  show thesis by (rule that [OF 1 tr [OF 2] 3])
qed

text \<open>A run on the cache-miss path up to the cache write.\<close>

lemma miss_to_cacheSet:
  assumes script: "filter (\<lambda>ev. \<not> isCallback ev) evs =
      Submit d (Some u) # CrawlSettled (length (runs s0)) (Inr urls) #
      CacheGetSettled (length (runs s0)) (Inr None) #
      FanoutSettled (length (runs s0)) (Inr (sw, an, so)) # rest"
    and valid: "d_sitemapUrl d \<noteq> []" "aiConfig s0 \<noteq> None" "\<not> isCancelling s0"
    and quiet: "\<forall>a \<in> set (runs s0). a_pc a = Returned"
    and urls: "urls \<noteq> []"
  obtains vs s' where "run_all rankUrls evs s0 = run_all rankUrls vs s'"
    and "tracked (length (runs s0)) d (analysisHistory s0) (AwaitCacheSet sw an so) fanoutDone s'"
    and "filter (\<lambda>ev. \<not> isCallback ev) vs = rest"
proof -
  let ?k = "length (runs s0)" and ?H = "analysisHistory s0"
  from script valid quiet obtain e1 s1 where
    r1: "run_all rankUrls evs s0 = run_all rankUrls e1 s1"
    and t1: "tracked ?k d ?H AwaitCrawl (setStatus ''crawl'' Running pendingStatuses) s1"
    and f1: "filter (\<lambda>ev. \<not> isCallback ev) e1 =
      CrawlSettled ?k (Inr urls) # CacheGetSettled ?k (Inr None) #
      FanoutSettled ?k (Inr (sw, an, so)) # rest"
    by (rule peel_submit)
  from f1 t1 obtain e2 s2 where
    r2: "run_all rankUrls e1 s1 = run_all rankUrls e2 s2"
    and t2: "tracked ?k d ?H (AwaitCacheGet urls)
               (setStatus ''crawl'' Complete (setStatus ''crawl'' Running pendingStatuses)) s2"
    and f2: "filter (\<lambda>ev. \<not> isCallback ev) e2 =
      CacheGetSettled ?k (Inr None) # FanoutSettled ?k (Inr (sw, an, so)) # rest"
    by (rule advance) (rule tracked_crawl [OF _ urls])
  from f2 t2 obtain e3 s3 where
    r3: "run_all rankUrls e2 s2 = run_all rankUrls e3 s3"
    and t3: "tracked ?k d ?H (AwaitFanout urls)
               (setStatus ''content'' Running (setStatus ''technical'' Running
                 (setStatus ''competitor'' Running (setStatus ''rank'' Complete
                   (setStatus ''rank'' Running
                     (setStatus ''crawl'' Complete (setStatus ''crawl'' Running pendingStatuses))))))) s3"
    and f3: "filter (\<lambda>ev. \<not> isCallback ev) e3 = FanoutSettled ?k (Inr (sw, an, so)) # rest"
    by (rule advance) (rule tracked_cacheMiss)
  from f3 t3 obtain e4 s4 where
    r4: "run_all rankUrls e3 s3 = run_all rankUrls e4 s4"
    and t4: "tracked ?k d ?H (AwaitCacheSet sw an so)
               (setStatus ''content'' Complete (setStatus ''technical'' Complete
                 (setStatus ''competitor'' Complete
               (setStatus ''content'' Running (setStatus ''technical'' Running
                 (setStatus ''competitor'' Running (setStatus ''rank'' Complete
                   (setStatus ''rank'' Running
                     (setStatus ''crawl'' Complete (setStatus ''crawl'' Running pendingStatuses)))))))))) s4"
    and f4: "filter (\<lambda>ev. \<not> isCallback ev) e4 = rest"
    by (rule advance) (rule tracked_fanout)
  have "tracked ?k d ?H (AwaitCacheSet sw an so) fanoutDone s4"
    using t4 by (simp add: setStatus_def pendingStatuses_def fanoutDone_def)
  with r1 r2 r3 r4 f4 show thesis
    by (intro that [of e4 s4]) simp_all
qed

text \<open>A whole run on the cache-miss path.\<close>

lemma miss_run:
  assumes script: "filter (\<lambda>ev. \<not> isCallback ev) evs =
      [Submit d (Some u), CrawlSettled (length (runs s0)) (Inr urls),
       CacheGetSettled (length (runs s0)) (Inr None),
       FanoutSettled (length (runs s0)) (Inr (sw, an, so)),
       CacheSetSettled (length (runs s0)) (Inr ()),
       PlanSettled (length (runs s0)) (Inr pl), SummarySettled (length (runs s0)) (Inr su) ok]"
    and valid: "d_sitemapUrl d \<noteq> []" "aiConfig s0 \<noteq> None" "\<not> isCancelling s0"
    and quiet: "\<forall>a \<in> set (runs s0). a_pc a = Returned"
    and urls: "urls \<noteq> []"
  shows "finished (length (runs s0)) (expectedRecord d sw an so pl su)
           (analysisHistory s0) ok allComplete (run_all rankUrls evs s0)"
proof -
  let ?k = "length (runs s0)" and ?H = "analysisHistory s0"
  from script valid quiet urls obtain e4 s4 where
    r4: "run_all rankUrls evs s0 = run_all rankUrls e4 s4"
    and t4: "tracked ?k d ?H (AwaitCacheSet sw an so) fanoutDone s4"
    and f4: "filter (\<lambda>ev. \<not> isCallback ev) e4 =
      [CacheSetSettled ?k (Inr ()), PlanSettled ?k (Inr pl), SummarySettled ?k (Inr su) ok]"
    by (rule miss_to_cacheSet [where rankUrls = rankUrls])
  from f4 t4 obtain e5 s5 where
    r5: "run_all rankUrls e4 s4 = run_all rankUrls e5 s5"
    and t5: "tracked ?k d ?H (AwaitPlan sw an so) (setStatus ''actionplan'' Running fanoutDone) s5"
    and f5: "filter (\<lambda>ev. \<not> isCallback ev) e5 =
      [PlanSettled ?k (Inr pl), SummarySettled ?k (Inr su) ok]"
    by (rule advance) (rule tracked_cacheSet)
  from f5 t5 obtain e6 s6 where
    r6: "run_all rankUrls e5 s5 = run_all rankUrls e6 s6"
    and t6: "tracked ?k d ?H (AwaitSummary sw an so pl)
       (setStatus ''summary'' Running (setStatus ''actionplan'' Complete
          (setStatus ''actionplan'' Running fanoutDone))) s6"
    and f6: "filter (\<lambda>ev. \<not> isCallback ev) e6 = [SummarySettled ?k (Inr su) ok]"
    by (rule advance) (rule tracked_planMiss)
  from f6 t6 obtain e7 s7 where
    r7: "run_all rankUrls e6 s6 = run_all rankUrls e7 (step rankUrls (SummarySettled ?k (Inr su) ok) s7)"
    and t7: "tracked ?k d ?H (AwaitSummary sw an so pl)
       (setStatus ''summary'' Running (setStatus ''actionplan'' Complete
          (setStatus ''actionplan'' Running fanoutDone))) s7"
    and f7: "filter (\<lambda>ev. \<not> isCallback ev) e7 = []"
    by (rule peel_tracked)
  have "finished ?k (expectedRecord d sw an so pl su) ?H ok
      (setStatus ''summary'' Complete (setStatus ''summary'' Running (setStatus ''actionplan'' Complete
          (setStatus ''actionplan'' Running fanoutDone))))
      (run_all rankUrls evs s0)"
    unfolding r4 r5 r6 r7 by (rule finished_end [OF tracked_summaryMiss [OF t7] f7])
  then show ?thesis
    by (simp add: setStatus_def fanoutDone_def allComplete_def)
qed

lemma exampleFanoutFailed_quiet:
  "length (runs exampleFanoutFailed) = 1 \<and> map a_pc (runs exampleFanoutFailed) = [Returned] \<and>
   aiConfig exampleFanoutFailed \<noteq> None \<and> \<not> isCancelling exampleFanoutFailed \<and>
   analysisHistory exampleFanoutFailed = []"
  by code_simp

lemma exampleFanoutFailed_returned: "\<forall>a \<in> set (runs exampleFanoutFailed). a_pc a = Returned"
proof
  fix a assume "a \<in> set (runs exampleFanoutFailed)"
  then have "a_pc a \<in> set (map a_pc (runs exampleFanoutFailed))" by simp
  then show "a_pc a = Returned" by (simp add: exampleFanoutFailed_quiet)
qed

lemma examplePost_collaborator: "\<forall>ev \<in> set examplePost. isCollaborator ev"
  by (simp add: examplePost_def isCollaborator_def)

text \<open>An instance: after a failed first run, a second run whose crawl finds nothing.\<close>

theorem empty_crawl_fails_run_witness:
  "filter (\<lambda>ev. \<not> isCallback ev) exampleEmptyCrawl =
     [Submit exampleData (Some ''https://example.com/sitemap.xml''),
      CrawlSettled (length (runs exampleFanoutFailed)) (Inr [])] \<and>
   d_sitemapUrl exampleData \<noteq> [] \<and> aiConfig exampleFanoutFailed \<noteq> None \<and>
   \<not> isCancelling exampleFanoutFailed \<and> map a_pc (runs exampleFanoutFailed) = [Returned] \<and>
   map isCollaborator examplePost = [True, True, True] \<and>
   appState (run_all id exampleEmptyCrawl exampleFanoutFailed) = AppError \<and>
   statuses (run_all id (exampleEmptyCrawl @ examplePost) exampleFanoutFailed) =
     [(''crawl'', Complete), (''rank'', Pending), (''competitor'', Pending),
      (''technical'', Pending), (''content'', Pending), (''actionplan'', Pending),
      (''summary'', Pending)]"
proof -
  have script: "filter (\<lambda>ev. \<not> isCallback ev) exampleEmptyCrawl =
     [Submit exampleData (Some ''https://example.com/sitemap.xml''),
      CrawlSettled (length (runs exampleFanoutFailed)) (Inr [])]"
    by (simp add: exampleEmptyCrawl_def exampleSubmit_def isCallback_def exampleFanoutFailed_quiet)
  have valid: "d_sitemapUrl exampleData \<noteq> []" "aiConfig exampleFanoutFailed \<noteq> None"
    "\<not> isCancelling exampleFanoutFailed"
    by (simp_all add: exampleData_def exampleFanoutFailed_quiet)
  have post: "map isCollaborator examplePost = [True, True, True]"
    by (simp add: examplePost_def isCollaborator_def)
  show ?thesis
    using script valid post exampleFanoutFailed_quiet
      empty_crawl_fails_run [OF script valid exampleFanoutFailed_returned examplePost_collaborator, of id]
    by simp
qed

section \<open>The history record of a cache hit\<close>



lemma filter_eq_appendD:
  "filter P evs = xs @ ys \<Longrightarrow> \<exists>us vs. evs = us @ vs \<and> filter P us = xs \<and> filter P vs = ys"
proof (induction xs arbitrary: evs)
  case Nil
  then have "evs = [] @ evs \<and> filter P [] = [] \<and> filter P evs = ys" by simp
  then show ?case by blast
next
  case (Cons x xs)
  from Cons.prems obtain us vs where evs: "evs = us @ x # vs" and us: "\<forall>u \<in> set us. \<not> P u"
    and x: "P x" and vs: "filter P vs = xs @ ys"
    by (auto simp: filter_eq_Cons_iff)
  from Cons.IH [OF vs] obtain us' vs' where vs': "vs = us' @ vs'" "filter P us' = xs" "filter P vs' = ys"
    by blast
  have "evs = (us @ x # us') @ vs' \<and> filter P (us @ x # us') = x # xs \<and> filter P vs' = ys"
    using us x vs' by (simp add: evs)
  then show ?case by blast
qed

lemma take_append_take: "take n (xs @ take n ys) = take n (xs @ ys)"
  by (simp add: min_def)

lemma foldl_prepend_take:
  "rs \<noteq> [] \<Longrightarrow> foldl (\<lambda>h r. take n (r # h)) h0 rs = take n (rev rs @ h0)"
proof (induction rs arbitrary: h0)
  case Nil
  then show ?case by simp
next
  case (Cons r rs)
  show ?case
  proof (cases "rs = []")
    case True
    then show ?thesis by simp
  next
    case False
    have "foldl (\<lambda>h r. take n (r # h)) h0 (r # rs) = take n (rev rs @ take n (r # h0))"
      using Cons.IH [OF False] by simp
    also have "\<dots> = take n (rev rs @ r # h0)" by (rule take_append_take)
    finally show ?thesis by simp
  qed
qed

text \<open>One successful run, on either path.\<close>

lemma one_run:
  assumes script: "filter (\<lambda>ev. \<not> isCallback ev) evs = scriptOf (length (runs s0)) r"
    and q: "quiet s0" and v: "validAnswers r"
  shows "finished (length (runs s0)) (recordOf r) (analysisHistory s0) True allComplete
           (run_all rankUrls evs s0)"
proof -
  have valid: "d_sitemapUrl (r_data r) \<noteq> []" "aiConfig s0 \<noteq> None" "\<not> isCancelling s0"
    and ret: "\<forall>a \<in> set (runs s0). a_pc a = Returned" and urls: "r_urls r \<noteq> []"
    using q v by (simp_all add: quiet_def validAnswers_def allReturned_def)
  show ?thesis
  proof (cases "r_cached r")
    case None
    then show ?thesis
      using miss_run [OF _ valid ret urls, of evs "r_parsed r" "r_sitewide r" "r_analysis r"
          "r_sources r" "r_plan r" "r_summary r" True rankUrls] script
      by (simp add: scriptOf_def recordOf_def)
  next
    case (Some c)
    then show ?thesis
      using hit_run [OF _ valid ret urls, of evs "r_parsed r" c "r_plan r" "r_summary r" True rankUrls]
        script
      by (simp add: scriptOf_def recordOf_def)
  qed
qed

lemma finished_history:
  assumes "finished k r H ok sts s"
  shows "map anonymous (analysisHistory s) = take 10 (r # map anonymous H)"
proof -
  from assms have ne: "analysisHistory s \<noteq> []" and r: "anonymous (hd (analysisHistory s)) = r"
    and h: "analysisHistory s = take 10 (hd (analysisHistory s) # H)"
    by (simp_all add: finished_def)
  have "map anonymous (analysisHistory s) = map anonymous (take 10 (hd (analysisHistory s) # H))"
    using h by simp
  also have "\<dots> = take 10 (r # map anonymous H)"
    by (simp add: r take_map)
  finally show ?thesis .
qed

lemma sequential_runs:
  assumes "filter (\<lambda>ev. \<not> isCallback ev) evs = scripts (length (runs s0)) rs"
    and "quiet s0" and "\<forall>r \<in> set rs. validAnswers r"
  shows "quiet (run_all rankUrls evs s0) \<and>
    map anonymous (analysisHistory (run_all rankUrls evs s0)) =
      foldl (\<lambda>h r. take 10 (r # h)) (map anonymous (analysisHistory s0)) (map recordOf rs) \<and>
    (rs \<noteq> [] \<longrightarrow> storedHistory (run_all rankUrls evs s0) = Some (analysisHistory (run_all rankUrls evs s0)))"
  using assms
proof (induction rs arbitrary: evs s0)
  case Nil
  from Nil(1) have cb: "filter (\<lambda>ev. \<not> isCallback ev) evs = []" by simp
  from peel_end [OF cb, of rankUrls s0] Nil(2) show ?case
    by (simp add: quiet_def allReturned_def)
next
  case (Cons r rs)
  let ?k = "length (runs s0)"
  from Cons.prems(1) obtain e1 e2 where evs: "evs = e1 @ e2"
    and e1: "filter (\<lambda>ev. \<not> isCallback ev) e1 = scriptOf ?k r"
    and e2: "filter (\<lambda>ev. \<not> isCallback ev) e2 = scripts (Suc ?k) rs"
    using filter_eq_appendD [of "\<lambda>ev. \<not> isCallback ev" evs "scriptOf ?k r" "scripts (Suc ?k) rs"]
    by auto
  let ?s1 = "run_all rankUrls e1 s0"
  have v: "validAnswers r" and vs: "\<forall>r \<in> set rs. validAnswers r"
    using Cons.prems(3) by simp_all
  have fin: "finished ?k (recordOf r) (analysisHistory s0) True allComplete ?s1"
    by (rule one_run [OF e1 Cons.prems(2) v])
  then have q1: "quiet ?s1" and len: "length (runs ?s1) = Suc ?k"
    and st1: "storedHistory ?s1 = Some (analysisHistory ?s1)"
    by (simp_all add: finished_def quiet_def)
  have h1: "map anonymous (analysisHistory ?s1) = take 10 (recordOf r # map anonymous (analysisHistory s0))"
    by (rule finished_history [OF fin])
  have e2': "filter (\<lambda>ev. \<not> isCallback ev) e2 = scripts (length (runs ?s1)) rs"
    using e2 len by simp
  note IH = Cons.IH [OF e2' q1 vs]
  have whole: "run_all rankUrls evs s0 = run_all rankUrls e2 ?s1"
    by (simp add: evs run_all_append)
  show ?case
  proof (cases "rs = []")
    case True
    then have cb: "filter (\<lambda>ev. \<not> isCallback ev) e2 = []" using e2 by simp
    from peel_end [OF cb, of rankUrls ?s1] IH st1 h1 True show ?thesis
      by (simp add: whole)
  next
    case False
    with IH h1 show ?thesis by (simp add: whole)
  qed
qed

lemma isCallback_CrawlFrame: "isCallback (CrawlFrame k p)"
  by (simp add: isCallback_def)

lemma scripts_no_callback: "filter (\<lambda>ev. \<not> isCallback ev) (scripts k rs) = scripts k rs"
  by (induction rs arbitrary: k) (simp_all add: scriptOf_def isCallback_def split: option.splits)

section \<open>The history\<close>

text \<open>
  C7 holds of runs that do not overlap. Successful runs are made one after the other, the
  first one submitted while no run is in flight, each with valid input and a crawl that finds URLs, on either path, with any
  progress callbacks in between, and the writes to \<open>localStorage\<close> succeed. Then the history
  is the list of the records of these runs, most recent first, followed by the history
  before the first run, cut to ten records (one run: the new record is prepended and the
  list is cut to ten); the persisted list is this list; and from ten runs on, so after
  eleven runs, the list has exactly ten records, those of the ten most recent runs.
  Records are compared without their clock readings \<open>id\<close> and \<open>date\<close>.
\<close>

theorem history_prepend_and_truncate:
  assumes "filter (\<lambda>ev. \<not> isCallback ev) evs = scripts (length (runs s0)) rs"
    and "quiet s0" and "\<forall>r \<in> set rs. validAnswers r" and "rs \<noteq> []"
  shows "map anonymous (analysisHistory (run_all rankUrls evs s0)) =
           take 10 (rev (map recordOf rs) @ map anonymous (analysisHistory s0)) \<and>
         storedHistory (run_all rankUrls evs s0) = Some (analysisHistory (run_all rankUrls evs s0)) \<and>
         (10 \<le> length rs \<longrightarrow>
            length (analysisHistory (run_all rankUrls evs s0)) = 10 \<and>
            map anonymous (analysisHistory (run_all rankUrls evs s0)) = take 10 (rev (map recordOf rs)))"
proof -
  let ?H = "analysisHistory (run_all rankUrls evs s0)"
  from sequential_runs [OF assms(1-3), of rankUrls] assms(4)
  have h: "map anonymous ?H =
      foldl (\<lambda>h r. take 10 (r # h)) (map anonymous (analysisHistory s0)) (map recordOf rs)"
    and st: "storedHistory (run_all rankUrls evs s0) = Some ?H"
    by simp_all
  have "foldl (\<lambda>h r. take 10 (r # h)) (map anonymous (analysisHistory s0)) (map recordOf rs) =
      take 10 (rev (map recordOf rs) @ map anonymous (analysisHistory s0))"
    by (rule foldl_prepend_take) (use assms(4) in simp)
  with h have eq: "map anonymous ?H = take 10 (rev (map recordOf rs) @ map anonymous (analysisHistory s0))"
    by (simp only:)
  have ten: "length ?H = 10 \<and> map anonymous ?H = take 10 (rev (map recordOf rs))" if "10 \<le> length rs"
  proof -
    have "length (map anonymous ?H) = 10" unfolding eq using that by simp
    then have "length ?H = 10" by simp
    moreover have "map anonymous ?H = take 10 (rev (map recordOf rs))"
      unfolding eq using that by simp
    ultimately show ?thesis by blast
  qed
  from eq st ten show ?thesis by blast
qed

text \<open>An instance: eleven runs after a failed one.\<close>

theorem history_prepend_and_truncate_witness:
  "filter (\<lambda>ev. \<not> isCallback ev) exampleElevenRuns = scripts (length (runs exampleFanoutFailed)) exampleEleven \<and>
   map a_pc (runs exampleFanoutFailed) = [Returned] \<and> \<not> isCancelling exampleFanoutFailed \<and>
   aiConfig exampleFanoutFailed \<noteq> None \<and>
   list_all validAnswers exampleEleven \<and> length exampleEleven = 11 \<and>
   length (analysisHistory (run_all id exampleElevenRuns exampleFanoutFailed)) = 10 \<and>
   map anonymous (analysisHistory (run_all id exampleElevenRuns exampleFanoutFailed)) =
     map recordOf (map exampleAnswers [11, 10, 9, 8, 7, 6, 5, 4, 3, 2]) \<and>
   storedHistory (run_all id exampleElevenRuns exampleFanoutFailed) =
     Some (analysisHistory (run_all id exampleElevenRuns exampleFanoutFailed))"
proof -
  have script: "filter (\<lambda>ev. \<not> isCallback ev) exampleElevenRuns =
      scripts (length (runs exampleFanoutFailed)) exampleEleven"
    by (simp add: exampleElevenRuns_def isCallback_CrawlFrame scripts_no_callback exampleFanoutFailed_quiet)
  have q: "quiet exampleFanoutFailed"
    using exampleFanoutFailed_returned by (simp add: quiet_def allReturned_def exampleFanoutFailed_quiet)
  have v: "list_all validAnswers exampleEleven"
    by (simp add: exampleEleven_def validAnswers_def exampleAnswers_def exampleData_def)
  have v': "\<forall>r \<in> set exampleEleven. validAnswers r"
    by (simp add: exampleEleven_def validAnswers_def exampleAnswers_def exampleData_def)
  have ne: "exampleEleven \<noteq> []" and len: "length exampleEleven = 11"
    by (simp_all add: exampleEleven_def)
  have recs: "take 10 (rev (map recordOf exampleEleven)) =
      map recordOf (map exampleAnswers [11, 10, 9, 8, 7, 6, 5, 4, 3, 2])"
    by (simp add: exampleEleven_def)
  show ?thesis
    using script v len exampleFanoutFailed_quiet recs
      history_prepend_and_truncate [OF script q v' ne, of id]
    by simp
qed

lemma planUnstarted_joinRespected: "planUnstarted s \<Longrightarrow> joinRespected s"
  by (auto simp: planUnstarted_def joinRespected_def)

lemma planUnstarted_ext:
  "planUnstarted s \<Longrightarrow> pipelineStages s' = pipelineStages s \<Longrightarrow> clock s \<le> clock s' \<Longrightarrow> planUnstarted s'"
  by (fastforce simp: planUnstarted_def timesBounded_def)

lemma joinRespected_ext:
  "joinRespected s \<Longrightarrow> pipelineStages s' = pipelineStages s \<Longrightarrow> clock s \<le> clock s' \<Longrightarrow> joinRespected s'"
  by (fastforce simp: joinRespected_def timesBounded_def)

lemma clock_mono:
  "clock s \<le> clock (addLog m ty g s)"
  "clock s \<le> clock (startStage i task s)"
  "clock s \<le> clock (completeStage i s)"
  "clock s \<le> clock (stampAnalysisStart s)"
  "clock s \<le> clock (finalize a sw an so pl su ok s)"
  by (simp_all add: addLog_def startStage_def completeStage_def stampAnalysisStart_def finalize_def
        Date_now_def Let_def updateStage_def)

lemma planUnstarted_prims:
  "planUnstarted s \<Longrightarrow> planUnstarted (addLog m ty g s)"
  "planUnstarted s \<Longrightarrow> planUnstarted (mergePartialResults w s)"
  "planUnstarted s \<Longrightarrow> planUnstarted (replacePartialResults w s)"
  "planUnstarted s \<Longrightarrow> planUnstarted (s\<lparr>loadingPhase := lp, crawlProgress := cp\<rparr>)"
  by (erule planUnstarted_ext; simp add: clock_mono)+

lemma joinRespected_prims:
  "joinRespected s \<Longrightarrow> joinRespected (addLog m ty g s)"
  "joinRespected s \<Longrightarrow> joinRespected (mergePartialResults w s)"
  "joinRespected s \<Longrightarrow> joinRespected (replacePartialResults w s)"
  "joinRespected s \<Longrightarrow> joinRespected (finalize a sw an so pl su ok s)"
  by (erule joinRespected_ext; simp add: clock_mono)+

lemma stages_startStage:
  "pipelineStages (startStage i task s) =
     map (\<lambda>st. if sid st = i
                then st\<lparr>status := Running, currentTask := Some task,
                        startTime := Some (clock s + next_tick (ticks s))\<rparr>
                else st) (pipelineStages s)"
  "clock (startStage i task s) = clock s + next_tick (ticks s)"
  by (simp_all add: startStage_def updateStage_def mergeStage_def noUpdate_def orElse_def
        Date_now_def Let_def)

lemma stages_completeStage:
  "pipelineStages (completeStage i s) =
     map (\<lambda>st. if sid st = i
                then st\<lparr>status := Complete, progress := 100,
                        endTime := Some (clock s + next_tick (ticks s))\<rparr>
                else st) (pipelineStages s)"
  "clock (completeStage i s) = clock s + next_tick (ticks s)"
  by (simp_all add: completeStage_def updateStage_def mergeStage_def noUpdate_def orElse_def
        Date_now_def Let_def)

lemma planUnstarted_completeStage:
  "planUnstarted s \<Longrightarrow> planUnstarted (completeStage i s)"
  by (auto simp: planUnstarted_def timesBounded_def stages_completeStage trans_le_add1)

lemma planUnstarted_startStage:
  "planUnstarted s \<Longrightarrow> i \<noteq> ''actionplan'' \<Longrightarrow> planUnstarted (startStage i task s)"
  by (auto simp: planUnstarted_def timesBounded_def stages_startStage trans_le_add1)

lemma joinRespected_startStage:
  "joinRespected s \<Longrightarrow> i \<notin> fanoutStages \<Longrightarrow> joinRespected (startStage i task s)"
  by (auto simp: joinRespected_def timesBounded_def stages_startStage trans_le_add1)

lemma joinRespected_completeStage:
  "joinRespected s \<Longrightarrow> i \<notin> fanoutStages \<Longrightarrow> joinRespected (completeStage i s)"
  by (auto simp: joinRespected_def timesBounded_def stages_completeStage trans_le_add1)

lemma planUnstarted_updateStage:
  "planUnstarted s \<Longrightarrow> u_startTime u = None \<Longrightarrow> u_endTime u = None \<Longrightarrow>
   planUnstarted (updateStage i u s)"
  by (auto simp: planUnstarted_def timesBounded_def updateStage_def mergeStage_def orElse_def)

lemma joinRespected_updateStage:
  "joinRespected s \<Longrightarrow> u_startTime u = None \<Longrightarrow> u_endTime u = None \<Longrightarrow>
   joinRespected (updateStage i u s)"
  by (auto simp: joinRespected_def timesBounded_def updateStage_def mergeStage_def orElse_def)

lemma planUnstarted_callbacks:
  "planUnstarted s \<Longrightarrow> planUnstarted (crawlFrame p s)"
  "planUnstarted s \<Longrightarrow> planUnstarted (auditProgress m s)"
  "planUnstarted s \<Longrightarrow> planUnstarted (seoProgress m s)"
  "planUnstarted s \<Longrightarrow> planUnstarted (planProgress m s)"
proof -
  assume p: "planUnstarted s"
  have "planUnstarted (s\<lparr>crawlProgress := Some p\<rparr>)"
    using p by (rule planUnstarted_ext) simp_all
  then show "planUnstarted (crawlFrame p s)"
    unfolding crawlFrame_def by (rule planUnstarted_updateStage) (simp_all add: noUpdate_def)
  have t: "planUnstarted (taskStage i m s)" for i
    unfolding taskStage_def using p by (rule planUnstarted_updateStage) (simp_all add: noUpdate_def)
  show "planUnstarted (auditProgress m s)" "planUnstarted (seoProgress m s)"
    "planUnstarted (planProgress m s)"
    by (simp_all add: auditProgress_def seoProgress_def planProgress_def planUnstarted_prims t)
qed

lemma joinRespected_callbacks:
  "joinRespected s \<Longrightarrow> joinRespected (crawlFrame p s)"
  "joinRespected s \<Longrightarrow> joinRespected (auditProgress m s)"
  "joinRespected s \<Longrightarrow> joinRespected (seoProgress m s)"
  "joinRespected s \<Longrightarrow> joinRespected (planProgress m s)"
proof -
  assume p: "joinRespected s"
  have "joinRespected (s\<lparr>crawlProgress := Some p\<rparr>)"
    using p by (rule joinRespected_ext) simp_all
  then show "joinRespected (crawlFrame p s)"
    unfolding crawlFrame_def by (rule joinRespected_updateStage) (simp_all add: noUpdate_def)
  have t: "joinRespected (taskStage i m s)" for i
    unfolding taskStage_def using p by (rule joinRespected_updateStage) (simp_all add: noUpdate_def)
  show "joinRespected (auditProgress m s)" "joinRespected (seoProgress m s)"
    "joinRespected (planProgress m s)"
    by (simp_all add: auditProgress_def seoProgress_def planProgress_def joinRespected_prims t)
qed

lemma planUnstarted_failRunningStages:
  "planUnstarted s \<Longrightarrow> planUnstarted (failRunningStages s)"
  by (auto simp: planUnstarted_def timesBounded_def failRunningStages_def)

lemma joinRespected_failRunningStages:
  "joinRespected s \<Longrightarrow> joinRespected (failRunningStages s)"
  by (auto simp: joinRespected_def timesBounded_def failRunningStages_def)

lemma planUnstarted_resetPipeline: "planUnstarted (resetPipeline s)"
  by (auto simp: planUnstarted_def timesBounded_def dest: fresh_pending)

lemma joinRespected_onRejected: "joinRespected s \<Longrightarrow> joinRespected (onRejected a e s)"
proof -
  assume p: "joinRespected s"
  let ?s1 = "s\<lparr>error := Some (errorMessageOf e)\<rparr>"
  let ?s2 = "addLog (''Analysis failed: '' @ errorMessageOf e) LogError None ?s1"
  have 1: "joinRespected ?s1" using p by (rule joinRespected_ext) simp_all
  then have 2: "joinRespected ?s2" by (rule joinRespected_prims)
  then have 3: "joinRespected (failRunningStages ?s2)" by (rule joinRespected_failRunningStages)
  then have "joinRespected ((failRunningStages ?s2)\<lparr>appState := AppError\<rparr>)"
    by (rule joinRespected_ext) simp_all
  then show ?thesis using p by (simp add: onRejected_def Let_def)
qed

lemma join_segments:
  "planUnstarted s \<Longrightarrow> planUnstarted (snd (afterCrawl urls s))"
  "planUnstarted s \<Longrightarrow> joinRespected (snd (afterCacheHit urls c s))"
  "planUnstarted s \<Longrightarrow> planUnstarted (snd (afterCacheMiss rankUrls urls s))"
  "planUnstarted s \<Longrightarrow> planUnstarted (snd (afterFanout sw an so s))"
  "planUnstarted s \<Longrightarrow> joinRespected (snd (afterCacheSet sw an so s))"
  "joinRespected s \<Longrightarrow> joinRespected (afterPlan m t pl s)"
  "joinRespected s \<Longrightarrow> joinRespected (snd (afterSummaryHit a c pl su ok s))"
  "joinRespected s \<Longrightarrow> joinRespected (snd (afterSummaryMiss a sw an so pl su ok s))"
  by (simp_all add: afterCrawl_def afterCacheHit_def afterCacheMiss_def afterFanout_def
        afterCacheSet_def afterPlan_def afterSummaryHit_def afterSummaryMiss_def Let_def
        planUnstarted_prims joinRespected_prims planUnstarted_completeStage planUnstarted_startStage
        joinRespected_startStage joinRespected_completeStage planUnstarted_joinRespected
        fanoutStages_def)

lemma segments_runs [simp]:
  "runs (snd (afterCrawl urls s)) = runs s"
  "runs (snd (afterCacheHit urls c s)) = runs s"
  "runs (snd (afterCacheMiss rankUrls urls s)) = runs s"
  "runs (snd (afterFanout sw an so s)) = runs s"
  "runs (snd (afterCacheSet sw an so s)) = runs s"
  "runs (afterPlan m t pl s) = runs s"
  "runs (snd (afterSummaryHit a c pl su ok s)) = runs s"
  "runs (snd (afterSummaryMiss a sw an so pl su ok s)) = runs s"
  by (simp_all add: afterCrawl_def afterCacheHit_def afterCacheMiss_def afterFanout_def
        afterCacheSet_def afterPlan_def afterSummaryHit_def afterSummaryMiss_def Let_def)

lemma segments_pc:
  "fst (afterCrawl urls s) = Inr p \<Longrightarrow> p = AwaitCacheGet urls"
  "fst (afterCacheHit urls c s) = Inr p \<Longrightarrow> p = HitAwaitPlan c"
  "fst (afterCacheMiss rankUrls urls s) = Inr p \<Longrightarrow> p = AwaitFanout urls"
  "fst (afterFanout sw an so s) = Inr p \<Longrightarrow> p = AwaitCacheSet sw an so"
  "fst (afterCacheSet sw an so s) = Inr p \<Longrightarrow> p = AwaitPlan sw an so"
  "fst (afterSummaryHit a c pl su ok s) = Inr p \<Longrightarrow> p = Returned"
  "fst (afterSummaryMiss a sw an so pl su ok s) = Inr p \<Longrightarrow> p = Returned"
  by (auto simp: afterCrawl_def afterCacheHit_def afterCacheMiss_def afterFanout_def
        afterCacheSet_def afterSummaryHit_def afterSummaryMiss_def Let_def split: if_splits)

lemma joinInv_settle:
  assumes inv: "joinInv k s" and r: "joinStep r s"
  shows "joinInv k (settle k (runs s ! k) r)"
proof (cases r)
  case (Pair x s')
  have len: "length (runs s) = Suc k" and old: "\<forall>j < k. a_pc (runs s ! j) = Returned"
    using inv by (simp_all add: joinInv_def)
  have rs: "runs s' = runs s" and jr: "joinRespected s'"
    using r Pair by (simp_all add: joinStep_def)
  show ?thesis
  proof (cases x)
    case (Inl e)
    have "joinRespected (onRejected (runs s ! k) e s')" by (rule joinRespected_onRejected [OF jr])
    then have "joinRespected ((onRejected (runs s ! k) e s')\<lparr>runs := rr\<rparr>)" for rr
      by (rule joinRespected_ext) simp_all
    then show ?thesis using Pair Inl len old rs
      by (simp add: settle_Inl joinInv_def beforePlan_def)
  next
    case (Inr p)
    have a: "planUnstarted (s'\<lparr>runs := rr\<rparr>)" if "beforePlan p" for rr
    proof -
      have "planUnstarted s'" using r Pair Inr that by (simp add: joinStep_def)
      then show ?thesis by (rule planUnstarted_ext) simp_all
    qed
    have b: "joinRespected (s'\<lparr>runs := rr\<rparr>)" for rr
      using jr by (rule joinRespected_ext) simp_all
    show ?thesis using Pair Inr len old rs a b
      by (simp add: settle_Inr joinInv_def)
  qed
qed

lemma joinInv_resume:
  assumes inv: "joinInv k s"
    and seg: "\<And>seg. f (runs s ! k) = Some seg \<Longrightarrow> joinStep (seg s) s"
    and ret: "\<And>a. a_pc a = Returned \<Longrightarrow> f a = None"
  shows "joinInv k (resume k' f s)"
proof (cases "k' < length (runs s)")
  case False
  then show ?thesis using inv by (simp add: resume_out)
next
  case True
  have len: "length (runs s) = Suc k" and old: "\<forall>j < k. a_pc (runs s ! j) = Returned"
    using inv by (simp_all add: joinInv_def)
  show ?thesis
  proof (cases "k' = k")
    case False
    then have "k' < k" using True len by simp
    then have "f (runs s ! k') = None" using old ret by simp
    then show ?thesis using inv True by (simp add: resume_skip)
  next
    case k: True
    show ?thesis
    proof (cases "f (runs s ! k)")
      case None
      then show ?thesis using inv True k by (simp add: resume_skip)
    next
      case (Some sg)
      have "resume k f s = settle k (runs s ! k) (sg s)"
        using True k Some by (simp add: resume_def)
      then show ?thesis using joinInv_settle [OF inv seg [OF Some]] k by simp
    qed
  qed
qed

lemma joinStep_awaited:
  assumes "joinRespected s" and "\<And>v. joinStep (cont v s) s"
  shows "joinStep (awaited r cont s) s"
  using assms by (cases r) (simp_all add: awaited_def joinStep_def)

lemma joinInv_state:
  assumes "joinInv k s"
  shows "joinRespected s" and "beforePlan (a_pc (runs s ! k)) \<Longrightarrow> planUnstarted s"
  using assms by (auto simp: joinInv_def planUnstarted_joinRespected split: if_splits)

lemma joinInv_frame:
  "joinInv k s \<Longrightarrow> runs s' = runs s \<Longrightarrow> planUnstarted s' \<Longrightarrow> joinInv k s'"
  by (simp add: joinInv_def planUnstarted_joinRespected)

lemma joinInv_callback:
  assumes "joinInv k s" and "runs (f s) = runs s"
    and "planUnstarted s \<Longrightarrow> planUnstarted (f s)" and "joinRespected s \<Longrightarrow> joinRespected (f s)"
  shows "joinInv k (callback k' issued f s)"
  using assms by (auto simp: callback_def joinInv_def)

lemma joinInv_step:
  assumes inv: "joinInv k s" and ev: "\<not> isSubmit ev"
  shows "joinInv k (step rankUrls ev s)"
proof (cases ev)
  case (Submit d p)
  then show ?thesis using ev by (simp add: isSubmit_def)
next
  case Cancel
  show ?thesis unfolding Cancel step_def event.case
    by (rule joinInv_frame [OF inv])
       (simp_all add: handleCancelAnalysis_def Let_def planUnstarted_resetPipeline)
next
  case NewAnalysis
  show ?thesis unfolding NewAnalysis step_def event.case
    by (rule joinInv_frame [OF inv])
       (simp_all add: handleNewAnalysis_def planUnstarted_resetPipeline)
next
  case (AiConfigChange c)
  have "planUnstarted s \<Longrightarrow> planUnstarted (s\<lparr>aiConfig := Some c, appState := AppIdle\<rparr>)"
    by (erule planUnstarted_ext) simp_all
  moreover have "joinRespected s \<Longrightarrow> joinRespected (s\<lparr>aiConfig := Some c, appState := AppIdle\<rparr>)"
    by (erule joinRespected_ext) simp_all
  ultimately show ?thesis using inv
    by (auto simp: AiConfigChange step_def handleAiConfigChange_def joinInv_def)
next
  case (CrawlFrame k' p)
  show ?thesis unfolding CrawlFrame step_def event.case
    by (rule joinInv_callback [OF inv]) (simp_all add: planUnstarted_callbacks joinRespected_callbacks)
next
  case (AuditProgress k' m)
  show ?thesis unfolding AuditProgress step_def event.case
    by (rule joinInv_callback [OF inv]) (simp_all add: planUnstarted_callbacks joinRespected_callbacks)
next
  case (SeoProgress k' m)
  show ?thesis unfolding SeoProgress step_def event.case
    by (rule joinInv_callback [OF inv]) (simp_all add: planUnstarted_callbacks joinRespected_callbacks)
next
  case (PlanProgress k' m)
  show ?thesis unfolding PlanProgress step_def event.case
    by (rule joinInv_callback [OF inv]) (simp_all add: planUnstarted_callbacks joinRespected_callbacks)
next
  case (CrawlSettled k' r)
  show ?thesis unfolding CrawlSettled step_def event.case
  proof (rule joinInv_resume [OF inv])
    fix seg assume "(case a_pc (runs s ! k) of AwaitCrawl \<Rightarrow> Some (awaited r afterCrawl) | _ \<Rightarrow> None) = Some seg"
    then have pc: "a_pc (runs s ! k) = AwaitCrawl" and seg: "seg = awaited r afterCrawl"
      by (auto split: pc.splits)
    have pu: "planUnstarted s" using joinInv_state(2) [OF inv] pc by (simp add: beforePlan_def)
    show "joinStep (seg s) s" unfolding seg
      by (rule joinStep_awaited [OF joinInv_state(1) [OF inv]])
         (simp add: joinStep_def join_segments pu planUnstarted_joinRespected)
  qed simp
next
  case (CacheGetSettled k' r)
  show ?thesis unfolding CacheGetSettled step_def event.case
  proof (rule joinInv_resume [OF inv])
    fix seg assume "(case a_pc (runs s ! k) of
        AwaitCacheGet urls \<Rightarrow> Some (awaited r (\<lambda>cachedAnalysis. case cachedAnalysis of
                       Some c \<Rightarrow> afterCacheHit urls c
                     | None \<Rightarrow> afterCacheMiss rankUrls urls))
        | _ \<Rightarrow> None) = Some seg"
    then obtain urls where pc: "a_pc (runs s ! k) = AwaitCacheGet urls"
      and seg: "seg = awaited r (\<lambda>cachedAnalysis. case cachedAnalysis of
                       Some c \<Rightarrow> afterCacheHit urls c
                     | None \<Rightarrow> afterCacheMiss rankUrls urls)"
      by (auto split: pc.splits)
    have pu: "planUnstarted s" using joinInv_state(2) [OF inv] pc by (simp add: beforePlan_def)
    show "joinStep (seg s) s" unfolding seg
    proof (rule joinStep_awaited [OF joinInv_state(1) [OF inv]])
      fix v show "joinStep ((case v of Some c \<Rightarrow> afterCacheHit urls c
                     | None \<Rightarrow> afterCacheMiss rankUrls urls) s) s"
        using segments_pc(2) [of urls _ s] 
        by (cases v) (auto simp: joinStep_def join_segments pu planUnstarted_joinRespected
              beforePlan_def dest!: segments_pc(2))
    qed
  qed simp
next
  case (FanoutSettled k' r)
  show ?thesis unfolding FanoutSettled step_def event.case
  proof (rule joinInv_resume [OF inv])
    fix seg assume "(case a_pc (runs s ! k) of
        AwaitFanout urls \<Rightarrow> Some (awaited r (\<lambda>v. case v of (sitewide, analysis, srcs) \<Rightarrow>
                       afterFanout sitewide analysis srcs))
        | _ \<Rightarrow> None) = Some seg"
    then obtain urls where pc: "a_pc (runs s ! k) = AwaitFanout urls"
      and seg: "seg = awaited r (\<lambda>v. case v of (sitewide, analysis, srcs) \<Rightarrow>
                       afterFanout sitewide analysis srcs)"
      by (auto split: pc.splits)
    have pu: "planUnstarted s" using joinInv_state(2) [OF inv] pc by (simp add: beforePlan_def)
    show "joinStep (seg s) s" unfolding seg
      by (rule joinStep_awaited [OF joinInv_state(1) [OF inv]])
         (simp add: joinStep_def join_segments pu planUnstarted_joinRespected split: prod.splits)
  qed simp
next
  case (CacheSetSettled k' r)
  show ?thesis unfolding CacheSetSettled step_def event.case
  proof (rule joinInv_resume [OF inv])
    fix seg assume "(case a_pc (runs s ! k) of
        AwaitCacheSet sitewide analysis srcs \<Rightarrow>
          Some (awaited r (\<lambda>_. afterCacheSet sitewide analysis srcs))
        | _ \<Rightarrow> None) = Some seg"
    then obtain sw an so where pc: "a_pc (runs s ! k) = AwaitCacheSet sw an so"
      and seg: "seg = awaited r (\<lambda>_. afterCacheSet sw an so)"
      by (auto split: pc.splits)
    have pu: "planUnstarted s" using joinInv_state(2) [OF inv] pc by (simp add: beforePlan_def)
    show "joinStep (seg s) s" unfolding seg
      by (rule joinStep_awaited [OF joinInv_state(1) [OF inv]])
         (auto simp: joinStep_def join_segments pu beforePlan_def dest!: segments_pc(5))
  qed simp
next
  case (PlanSettled k' r)
  show ?thesis unfolding PlanSettled step_def event.case
  proof (rule joinInv_resume [OF inv])
    fix seg assume "(case a_pc (runs s ! k) of
             HitAwaitPlan c \<Rightarrow>
               Some (awaited r (\<lambda>plan s'.
                       (Inr (HitAwaitSummary c plan),
                        afterPlan ''Action plan generated'' ''Creating 80/20 analysis...'' plan s')))
           | AwaitPlan sitewide analysis srcs \<Rightarrow>
               Some (awaited r (\<lambda>plan s'.
                       (Inr (AwaitSummary sitewide analysis srcs plan),
                        afterPlan ''Action plan generated successfully''
                          ''Generating 80/20 analysis...'' plan s')))
           | _ \<Rightarrow> None) = Some seg"
    then consider c where "seg = awaited r (\<lambda>plan s'.
                       (Inr (HitAwaitSummary c plan),
                        afterPlan ''Action plan generated'' ''Creating 80/20 analysis...'' plan s'))"
      | sw an so where "seg = awaited r (\<lambda>plan s'.
                       (Inr (AwaitSummary sw an so plan),
                        afterPlan ''Action plan generated successfully''
                          ''Generating 80/20 analysis...'' plan s'))"
      by (auto split: pc.splits)
    then show "joinStep (seg s) s"
    proof cases
      case 1
      show ?thesis unfolding 1
        by (rule joinStep_awaited [OF joinInv_state(1) [OF inv]])
           (simp add: joinStep_def join_segments joinInv_state(1) [OF inv] beforePlan_def)
    next
      case 2
      show ?thesis unfolding 2
        by (rule joinStep_awaited [OF joinInv_state(1) [OF inv]])
           (simp add: joinStep_def join_segments joinInv_state(1) [OF inv] beforePlan_def)
    qed
  qed simp
next
  case (SummarySettled k' r ok)
  show ?thesis unfolding SummarySettled step_def event.case
  proof (rule joinInv_resume [OF inv])
    fix seg assume "(case a_pc (runs s ! k) of
             HitAwaitSummary c plan \<Rightarrow>
               Some (awaited r (\<lambda>summary. afterSummaryHit (runs s ! k) c plan summary ok))
           | AwaitSummary sitewide analysis srcs plan \<Rightarrow>
               Some (awaited r (\<lambda>summary.
                       afterSummaryMiss (runs s ! k) sitewide analysis srcs plan summary ok))
           | _ \<Rightarrow> None) = Some seg"
    then consider c pl where "seg = awaited r (\<lambda>summary. afterSummaryHit (runs s ! k) c pl summary ok)"
      | sw an so pl where "seg = awaited r (\<lambda>summary.
                       afterSummaryMiss (runs s ! k) sw an so pl summary ok)"
      by (auto split: pc.splits)
    then show "joinStep (seg s) s"
    proof cases
      case 1
      show ?thesis unfolding 1
        by (rule joinStep_awaited [OF joinInv_state(1) [OF inv]])
           (auto simp: joinStep_def join_segments joinInv_state(1) [OF inv] beforePlan_def
              dest!: segments_pc(6))
    next
      case 2
      show ?thesis unfolding 2
        by (rule joinStep_awaited [OF joinInv_state(1) [OF inv]])
           (auto simp: joinStep_def join_segments joinInv_state(1) [OF inv] beforePlan_def
              dest!: segments_pc(7))
    qed
  qed simp
qed

lemma submit_planUnstarted:
  assumes "d_sitemapUrl d \<noteq> []" and "aiConfig s \<noteq> None"
  shows "planUnstarted (step rankUrls (Submit d (Some u)) s)"
proof -
  from assms(2) obtain cfg where cfg: "aiConfig s = Some cfg" by auto
  let ?s1 = "s\<lparr>abortController := Some False, appState := AppLoading,
                         loadingPhase := Crawling, error := None,
                         selectedAnalysisId := None, crawlProgress := None\<rparr>"
  let ?s5 = "startStage ''crawl'' ''Initializing parallel crawler...''
      (addLog ''Starting sitemap discovery...'' Info (Some ''crawl'')
        (stampAnalysisStart (resetPipeline ?s1)))"
  have "planUnstarted (stampAnalysisStart (resetPipeline ?s1))"
    using planUnstarted_resetPipeline [of ?s1] by (rule planUnstarted_ext) (simp_all add: clock_mono)
  then have "planUnstarted ?s5"
    by (intro planUnstarted_startStage planUnstarted_prims) simp_all
  then have "planUnstarted (?s5\<lparr>runs := rr\<rparr>)" for rr
    by (rule planUnstarted_ext) simp_all
  then show ?thesis using assms(1) cfg
    by (simp add: step_def handleSubmit_def Let_def)
qed

lemma joinInv_submit:
  assumes "d_sitemapUrl d \<noteq> []" and "aiConfig s \<noteq> None"
    and "\<forall>a \<in> set (runs s). a_pc a = Returned"
  shows "joinInv (length (runs s)) (step rankUrls (Submit d (Some u)) s)"
proof -
  from assms(2) obtain cfg where cfg: "aiConfig s = Some cfg" by auto
  show ?thesis
    using submit_valid(1) [OF assms(1) cfg, of rankUrls u] submit_planUnstarted [OF assms(1,2), of rankUrls u]
      assms(3)
    by (simp add: joinInv_def nth_append beforePlan_def)
qed

lemma joinInv_run_all:
  "joinInv k s \<Longrightarrow> \<forall>ev \<in> set evs. \<not> isSubmit ev \<Longrightarrow> joinInv k (run_all rankUrls evs s)"
  by (induction evs arbitrary: s) (simp_all add: run_all_Nil run_all_Cons joinInv_step)

section \<open>The join of the fan-out\<close>

text \<open>
  C6 holds of a run that no other run overlaps. A run is submitted (valid input,
  configured provider) while no other run is in flight, and no other run is submitted afterwards; the user may cancel, and collaborator answers and
  progress callbacks arrive in any order. Then in every state, whenever \<open>actionplan\<close> has a
  start time and one of \<open>competitor\<close>, \<open>technical\<close>, \<open>content\<close> has an end time, the start
  of \<open>actionplan\<close> is not before that end: on a cache miss that completes the fan-out,
  \<open>actionplan\<close> starts at or after the latest end of the three.
\<close>

theorem actionplan_starts_after_fanout:
  assumes "d_sitemapUrl d \<noteq> []" and "aiConfig s0 \<noteq> None"
    and "\<forall>a \<in> set (runs s0). a_pc a = Returned"
    and "\<forall>ev \<in> set evs. \<not> isSubmit ev"
    and "ap \<in> set (pipelineStages (run_all rankUrls (Submit d (Some u) # evs) s0))"
    and "sid ap = ''actionplan''" and "startTime ap = Some t"
    and "st \<in> set (pipelineStages (run_all rankUrls (Submit d (Some u) # evs) s0))"
    and "sid st \<in> {''competitor'', ''technical'', ''content''}" and "endTime st = Some e"
  shows "e \<le> t"
proof -
  have "joinInv (length (runs s0)) (run_all rankUrls (Submit d (Some u) # evs) s0)"
    unfolding run_all_Cons
    by (rule joinInv_run_all [OF joinInv_submit [OF assms(1-3)] assms(4)])
  then have "joinRespected (run_all rankUrls (Submit d (Some u) # evs) s0)"
    by (rule joinInv_state(1))
  with assms(5-10) show ?thesis
    unfolding joinRespected_def fanoutStages_def by blast
qed

lemma examplePlanStarted_table:
  "stageTable examplePlanStarted =
     [(''crawl'', Complete, Some 1105, Some 1110), (''rank'', Complete, Some 1135, Some 1140),
      (''competitor'', Complete, Some 1155, Some 1175), (''technical'', Complete, Some 1160, Some 1180),
      (''content'', Complete, Some 1165, Some 1185), (''actionplan'', Running, Some 1210, None),
      (''summary'', Pending, None, None)]"
  by code_simp

text \<open>An instance: the second run of the application, on the cache-miss path, has started
  \<open>actionplan\<close> at 1210; \<open>content\<close>, the last stage of the fan-out, ended at 1185.\<close>

theorem actionplan_starts_after_fanout_witness:
  "d_sitemapUrl exampleData \<noteq> [] \<and> aiConfig exampleFanoutFailed \<noteq> None \<and>
   map a_pc (runs exampleFanoutFailed) = [Returned] \<and>
   map isSubmit exampleMissToPlan = [False, False, False, False, False] \<and>
   pipelineStages examplePlanStarted ! 5 \<in> set (pipelineStages examplePlanStarted) \<and>
   sid (pipelineStages examplePlanStarted ! 5) = ''actionplan'' \<and>
   startTime (pipelineStages examplePlanStarted ! 5) = Some 1210 \<and>
   pipelineStages examplePlanStarted ! 4 \<in> set (pipelineStages examplePlanStarted) \<and>
   sid (pipelineStages examplePlanStarted ! 4) = ''content'' \<and>
   endTime (pipelineStages examplePlanStarted ! 4) = Some 1185 \<and>
   (1185::nat) \<le> 1210"
proof -
  note r5 = stageTable_nth [of examplePlanStarted 5 "''actionplan''" Running "Some 1210" None]
  note r4 = stageTable_nth [of examplePlanStarted 4 "''content''" Complete "Some 1165" "Some 1185"]
  have ap: "pipelineStages examplePlanStarted ! 5 \<in> set (pipelineStages examplePlanStarted)"
    "sid (pipelineStages examplePlanStarted ! 5) = ''actionplan''"
    "startTime (pipelineStages examplePlanStarted ! 5) = Some 1210"
    using r5 by (simp_all add: examplePlanStarted_table)
  have st: "pipelineStages examplePlanStarted ! 4 \<in> set (pipelineStages examplePlanStarted)"
    "sid (pipelineStages examplePlanStarted ! 4) = ''content''"
    "endTime (pipelineStages examplePlanStarted ! 4) = Some 1185"
    using r4 by (simp_all add: examplePlanStarted_table)
  have valid: "d_sitemapUrl exampleData \<noteq> []" "aiConfig exampleFanoutFailed \<noteq> None"
    by (simp_all add: exampleData_def exampleFanoutFailed_quiet)
  have ns: "map isSubmit exampleMissToPlan = [False, False, False, False, False]"
    by (simp add: exampleMissToPlan_def isSubmit_def)
  then have ns': "\<forall>ev \<in> set exampleMissToPlan. \<not> isSubmit ev"
    by (simp add: exampleMissToPlan_def isSubmit_def)
  have "(1185::nat) \<le> 1210"
    by (rule actionplan_starts_after_fanout [OF valid exampleFanoutFailed_returned ns'
          ap [unfolded examplePlanStarted_def]
          st(1) [unfolded examplePlanStarted_def] _ st(3) [unfolded examplePlanStarted_def]])
       (simp add: st(2) [unfolded examplePlanStarted_def])
  then show ?thesis
    using valid ns ap st exampleFanoutFailed_quiet by simp
qed

section \<open>The activations under every event\<close>

lemma awaited_runs:
  "(\<And>v. runs (snd (cont v s)) = runs s) \<Longrightarrow> runs (snd (awaited r cont s)) = runs s"
  by (cases r) (simp_all add: awaited_def)

lemma settle_runs:
  assumes "runs (snd r) = runs s"
  shows "runs (settle k a r) =
    (runs s)[k := (case fst r of Inl e \<Rightarrow> a\<lparr>a_pc := Returned\<rparr>
       | Inr p \<Rightarrow> a\<lparr>a_pc := p, a_fanoutIssued := (a_fanoutIssued a \<or> launchesFanout p),
                     a_planIssued := (a_planIssued a \<or> launchesPlan p)\<rparr>)]"
proof (cases r)
  case (Pair x s')
  then show ?thesis using assms by (cases x) (simp_all add: settle_Inl settle_Inr)
qed

lemma resume_runs:
  assumes "\<forall>seg. f (runs s ! k) = Some seg \<longrightarrow> runs (snd (seg s)) = runs s"
  shows "length (runs (resume k f s)) = length (runs s)"
    and "j \<noteq> k \<Longrightarrow> runs (resume k f s) ! j = runs s ! j"
    and "a_isCancelling (runs (resume k f s) ! j) = a_isCancelling (runs s ! j)"
    and "(\<And>a. a_pc a = Returned \<Longrightarrow> f a = None) \<Longrightarrow> a_pc (runs s ! j) = Returned \<Longrightarrow>
         a_pc (runs (resume k f s) ! j) = Returned"
proof -
  have *: "length (runs (resume k f s)) = length (runs s) \<and>
      (j \<noteq> k \<longrightarrow> runs (resume k f s) ! j = runs s ! j) \<and>
      a_isCancelling (runs (resume k f s) ! j) = a_isCancelling (runs s ! j) \<and>
      (f (runs s ! j) = None \<longrightarrow> a_pc (runs (resume k f s) ! j) = a_pc (runs s ! j))"
  proof (cases "k < length (runs s)")
    case False
    then show ?thesis by (simp add: resume_out)
  next
    case True
    show ?thesis
    proof (cases "f (runs s ! k)")
      case None
      then show ?thesis using True by (simp add: resume_skip)
    next
      case (Some seg)
      have r: "runs (resume k f s) = (runs s)[k := (case fst (seg s) of Inl e \<Rightarrow> (runs s ! k)\<lparr>a_pc := Returned\<rparr>
         | Inr p \<Rightarrow> (runs s ! k)\<lparr>a_pc := p, a_fanoutIssued := (a_fanoutIssued (runs s ! k) \<or> launchesFanout p),
                     a_planIssued := (a_planIssued (runs s ! k) \<or> launchesPlan p)\<rparr>)]"
        using True Some settle_runs [of "seg s" s] assms Some by (simp add: resume_at)
      let ?a = "case fst (seg s) of Inl e \<Rightarrow> (runs s ! k)\<lparr>a_pc := Returned\<rparr>
         | Inr p \<Rightarrow> (runs s ! k)\<lparr>a_pc := p, a_fanoutIssued := (a_fanoutIssued (runs s ! k) \<or> launchesFanout p),
                     a_planIssued := (a_planIssued (runs s ! k) \<or> launchesPlan p)\<rparr>"
      have c: "a_isCancelling ?a = a_isCancelling (runs s ! k)"
        by (cases "fst (seg s)") simp_all
      have 1: "length (runs (resume k f s)) = length (runs s)" unfolding r by simp
      have 2: "runs (resume k f s) ! j = runs s ! j" if "j \<noteq> k"
        unfolding r using that by simp
      have 3: "a_isCancelling (runs (resume k f s) ! j) = a_isCancelling (runs s ! j)"
      proof (cases "j = k")
        case True
        show ?thesis unfolding r True using \<open>k < length (runs s)\<close> c by (simp only: nth_list_update_eq)
      next
        case False
        then show ?thesis using 2 by simp
      qed
      have 4: "a_pc (runs (resume k f s) ! j) = a_pc (runs s ! j)" if "f (runs s ! j) = None"
      proof -
        from that Some have "j \<noteq> k" by auto
        then show ?thesis using 2 by simp
      qed
      show ?thesis using 1 2 3 4 by blast
    qed
  qed
  show "length (runs (resume k f s)) = length (runs s)"
    and "j \<noteq> k \<Longrightarrow> runs (resume k f s) ! j = runs s ! j"
    and "a_isCancelling (runs (resume k f s) ! j) = a_isCancelling (runs s ! j)"
    and "(\<And>a. a_pc a = Returned \<Longrightarrow> f a = None) \<Longrightarrow> a_pc (runs s ! j) = Returned \<Longrightarrow>
         a_pc (runs (resume k f s) ! j) = Returned"
    using * by simp_all
qed

text \<open>What an event does to the activations: none is removed, none changes what its closure
  captured, and an activation that has returned stays returned.\<close>

lemma segment_runs:
  "(case a_pc a of AwaitCrawl \<Rightarrow> Some (awaited r1 afterCrawl) | _ \<Rightarrow> None) = Some seg \<Longrightarrow>
     runs (snd (seg s)) = runs s"
  "(case a_pc a of
      AwaitCacheGet urls \<Rightarrow> Some (awaited r2 (\<lambda>cachedAnalysis. case cachedAnalysis of
                       Some c \<Rightarrow> afterCacheHit urls c
                     | None \<Rightarrow> afterCacheMiss rankUrls urls))
    | _ \<Rightarrow> None) = Some seg \<Longrightarrow> runs (snd (seg s)) = runs s"
  "(case a_pc a of
      AwaitFanout urls \<Rightarrow> Some (awaited r3 (\<lambda>v. case v of (sitewide, analysis, srcs) \<Rightarrow>
                       afterFanout sitewide analysis srcs))
    | _ \<Rightarrow> None) = Some seg \<Longrightarrow> runs (snd (seg s)) = runs s"
  "(case a_pc a of
      AwaitCacheSet sitewide analysis srcs \<Rightarrow>
               Some (awaited r4 (\<lambda>_. afterCacheSet sitewide analysis srcs))
    | _ \<Rightarrow> None) = Some seg \<Longrightarrow> runs (snd (seg s)) = runs s"
  "(case a_pc a of
             HitAwaitPlan c \<Rightarrow>
               Some (awaited r5 (\<lambda>plan s'.
                       (Inr (HitAwaitSummary c plan),
                        afterPlan ''Action plan generated'' ''Creating 80/20 analysis...'' plan s')))
           | AwaitPlan sitewide analysis srcs \<Rightarrow>
               Some (awaited r5 (\<lambda>plan s'.
                       (Inr (AwaitSummary sitewide analysis srcs plan),
                        afterPlan ''Action plan generated successfully''
                          ''Generating 80/20 analysis...'' plan s')))
           | _ \<Rightarrow> None) = Some seg \<Longrightarrow> runs (snd (seg s)) = runs s"
  "(case a_pc a of
             HitAwaitSummary c plan \<Rightarrow>
               Some (awaited r6 (\<lambda>summary. afterSummaryHit a c plan summary storageOk))
           | AwaitSummary sitewide analysis srcs plan \<Rightarrow>
               Some (awaited r6 (\<lambda>summary.
                       afterSummaryMiss a sitewide analysis srcs plan summary storageOk))
           | _ \<Rightarrow> None) = Some seg \<Longrightarrow> runs (snd (seg s)) = runs s"
  by (auto split: pc.splits option.splits prod.splits intro!: awaited_runs)

lemma step_runs:
  shows "length (runs s) \<le> length (runs (step rankUrls ev s))"
    and "j < length (runs s) \<Longrightarrow>
         a_isCancelling (runs (step rankUrls ev s) ! j) = a_isCancelling (runs s ! j)"
    and "j < length (runs s) \<Longrightarrow> a_pc (runs s ! j) = Returned \<Longrightarrow>
         a_pc (runs (step rankUrls ev s) ! j) = Returned"
    and "length (runs s) \<le> j \<Longrightarrow> j < length (runs (step rankUrls ev s)) \<Longrightarrow>
         a_isCancelling (runs (step rankUrls ev s) ! j) = isCancelling s"
proof -
  have "length (runs s) \<le> length (runs (step rankUrls ev s)) \<and>
    (j < length (runs s) \<longrightarrow>
         a_isCancelling (runs (step rankUrls ev s) ! j) = a_isCancelling (runs s ! j)) \<and>
    (j < length (runs s) \<longrightarrow> a_pc (runs s ! j) = Returned \<longrightarrow>
         a_pc (runs (step rankUrls ev s) ! j) = Returned) \<and>
    (length (runs s) \<le> j \<longrightarrow> j < length (runs (step rankUrls ev s)) \<longrightarrow>
         a_isCancelling (runs (step rankUrls ev s) ! j) = isCancelling s)"
  proof (cases ev)
    case (Submit d p)
    show ?thesis unfolding Submit
      by (auto simp: step_def handleSubmit_def Let_def nth_append split: option.splits)
  next
    case Cancel
    show ?thesis unfolding Cancel by (simp add: step_def handleCancelAnalysis_def Let_def)
  next
    case NewAnalysis
    show ?thesis unfolding NewAnalysis by (simp add: step_def handleNewAnalysis_def)
  next
    case (AiConfigChange c)
    show ?thesis unfolding AiConfigChange by (simp add: step_def handleAiConfigChange_def)
  next
    case (CrawlFrame k p)
    show ?thesis unfolding CrawlFrame by (simp add: step_def callback_runs)
  next
    case (AuditProgress k m)
    show ?thesis unfolding AuditProgress by (simp add: step_def callback_runs)
  next
    case (SeoProgress k m)
    show ?thesis unfolding SeoProgress by (simp add: step_def callback_runs)
  next
    case (PlanProgress k m)
    show ?thesis unfolding PlanProgress by (simp add: step_def callback_runs)
  next
    case (CrawlSettled k r)
    let ?f = "\<lambda>a. case a_pc a of AwaitCrawl \<Rightarrow> Some (awaited r afterCrawl) | _ \<Rightarrow> None"
    have seg: "\<forall>seg. ?f (runs s ! k) = Some seg \<longrightarrow> runs (snd (seg s)) = runs s"
      by (intro allI impI) (rule segment_runs)
    show ?thesis unfolding CrawlSettled step_def event.case
      using resume_runs [where f = ?f and s = s and k = k, OF seg]
      by (simp split: pc.splits)
  next
    case (CacheGetSettled k r)
    let ?f = "\<lambda>a. case a_pc a of
             AwaitCacheGet urls \<Rightarrow>
               Some (awaited r (\<lambda>cachedAnalysis. case cachedAnalysis of
                       Some c \<Rightarrow> afterCacheHit urls c
                     | None \<Rightarrow> afterCacheMiss rankUrls urls))
           | _ \<Rightarrow> None"
    have seg: "\<forall>seg. ?f (runs s ! k) = Some seg \<longrightarrow> runs (snd (seg s)) = runs s"
      by (intro allI impI) (rule segment_runs)
    show ?thesis unfolding CacheGetSettled step_def event.case
      using resume_runs [where f = ?f and s = s and k = k, OF seg]
      by (simp split: pc.splits)
  next
    case (FanoutSettled k r)
    let ?f = "\<lambda>a. case a_pc a of
             AwaitFanout urls \<Rightarrow>
               Some (awaited r (\<lambda>v. case v of (sitewide, analysis, srcs) \<Rightarrow>
                       afterFanout sitewide analysis srcs))
           | _ \<Rightarrow> None"
    have seg: "\<forall>seg. ?f (runs s ! k) = Some seg \<longrightarrow> runs (snd (seg s)) = runs s"
      by (intro allI impI) (rule segment_runs)
    show ?thesis unfolding FanoutSettled step_def event.case
      using resume_runs [where f = ?f and s = s and k = k, OF seg]
      by (simp split: pc.splits)
  next
    case (CacheSetSettled k r)
    let ?f = "\<lambda>a. case a_pc a of
             AwaitCacheSet sitewide analysis srcs \<Rightarrow>
               Some (awaited r (\<lambda>_. afterCacheSet sitewide analysis srcs))
           | _ \<Rightarrow> None"
    have seg: "\<forall>seg. ?f (runs s ! k) = Some seg \<longrightarrow> runs (snd (seg s)) = runs s"
      by (intro allI impI) (rule segment_runs)
    show ?thesis unfolding CacheSetSettled step_def event.case
      using resume_runs [where f = ?f and s = s and k = k, OF seg]
      by (simp split: pc.splits)
  next
    case (PlanSettled k r)
    let ?f = "\<lambda>a. case a_pc a of
             HitAwaitPlan c \<Rightarrow>
               Some (awaited r (\<lambda>plan s'.
                       (Inr (HitAwaitSummary c plan),
                        afterPlan ''Action plan generated'' ''Creating 80/20 analysis...'' plan s')))
           | AwaitPlan sitewide analysis srcs \<Rightarrow>
               Some (awaited r (\<lambda>plan s'.
                       (Inr (AwaitSummary sitewide analysis srcs plan),
                        afterPlan ''Action plan generated successfully''
                          ''Generating 80/20 analysis...'' plan s')))
           | _ \<Rightarrow> None"
    have seg: "\<forall>seg. ?f (runs s ! k) = Some seg \<longrightarrow> runs (snd (seg s)) = runs s"
      by (intro allI impI) (rule segment_runs)
    show ?thesis unfolding PlanSettled step_def event.case
      using resume_runs [where f = ?f and s = s and k = k, OF seg]
      by (simp split: pc.splits)
  next
    case (SummarySettled k r ok)
    let ?f = "\<lambda>a. case a_pc a of
             HitAwaitSummary c plan \<Rightarrow>
               Some (awaited r (\<lambda>summary. afterSummaryHit a c plan summary ok))
           | AwaitSummary sitewide analysis srcs plan \<Rightarrow>
               Some (awaited r (\<lambda>summary.
                       afterSummaryMiss a sitewide analysis srcs plan summary ok))
           | _ \<Rightarrow> None"
    have seg: "\<forall>seg. ?f (runs s ! k) = Some seg \<longrightarrow> runs (snd (seg s)) = runs s"
      by (intro allI impI) (rule segment_runs)
    show ?thesis unfolding SummarySettled step_def event.case
      using resume_runs [where f = ?f and s = s and k = k, OF seg]
      by (simp split: pc.splits)
  qed
  then show "length (runs s) \<le> length (runs (step rankUrls ev s))"
    and "j < length (runs s) \<Longrightarrow>
         a_isCancelling (runs (step rankUrls ev s) ! j) = a_isCancelling (runs s ! j)"
    and "j < length (runs s) \<Longrightarrow> a_pc (runs s ! j) = Returned \<Longrightarrow>
         a_pc (runs (step rankUrls ev s) ! j) = Returned"
    and "length (runs s) \<le> j \<Longrightarrow> j < length (runs (step rankUrls ev s)) \<Longrightarrow>
         a_isCancelling (runs (step rankUrls ev s) ! j) = isCancelling s"
    by simp_all
qed

lemma segments_isCancelling [simp]:
  "isCancelling (snd (afterCrawl urls s)) = isCancelling s"
  "isCancelling (snd (afterCacheHit urls c s)) = isCancelling s"
  "isCancelling (snd (afterCacheMiss rankUrls urls s)) = isCancelling s"
  "isCancelling (snd (afterFanout sw an so s)) = isCancelling s"
  "isCancelling (snd (afterCacheSet sw an so s)) = isCancelling s"
  "isCancelling (afterPlan m t pl s) = isCancelling s"
  "isCancelling (snd (afterSummaryHit a c pl su ok s)) = isCancelling s"
  "isCancelling (snd (afterSummaryMiss a sw an so pl su ok s)) = isCancelling s"
  by (simp_all add: afterCrawl_def afterCacheHit_def afterCacheMiss_def afterFanout_def
        afterCacheSet_def afterPlan_def afterSummaryHit_def afterSummaryMiss_def Let_def)

lemma awaited_isCancelling:
  "(\<And>v. isCancelling (snd (cont v s)) = isCancelling s) \<Longrightarrow>
   isCancelling (snd (awaited r cont s)) = isCancelling s"
  by (cases r) (simp_all add: awaited_def)

lemma segment_isCancelling:
  "(case a_pc a of AwaitCrawl \<Rightarrow> Some (awaited r1 afterCrawl) | _ \<Rightarrow> None) = Some seg \<Longrightarrow>
     isCancelling (snd (seg s)) = isCancelling s"
  "(case a_pc a of
      AwaitCacheGet urls \<Rightarrow> Some (awaited r2 (\<lambda>cachedAnalysis. case cachedAnalysis of
                       Some c \<Rightarrow> afterCacheHit urls c
                     | None \<Rightarrow> afterCacheMiss rankUrls urls))
    | _ \<Rightarrow> None) = Some seg \<Longrightarrow> isCancelling (snd (seg s)) = isCancelling s"
  "(case a_pc a of
      AwaitFanout urls \<Rightarrow> Some (awaited r3 (\<lambda>v. case v of (sitewide, analysis, srcs) \<Rightarrow>
                       afterFanout sitewide analysis srcs))
    | _ \<Rightarrow> None) = Some seg \<Longrightarrow> isCancelling (snd (seg s)) = isCancelling s"
  "(case a_pc a of
      AwaitCacheSet sitewide analysis srcs \<Rightarrow>
               Some (awaited r4 (\<lambda>_. afterCacheSet sitewide analysis srcs))
    | _ \<Rightarrow> None) = Some seg \<Longrightarrow> isCancelling (snd (seg s)) = isCancelling s"
  "(case a_pc a of
             HitAwaitPlan c \<Rightarrow>
               Some (awaited r5 (\<lambda>plan s'.
                       (Inr (HitAwaitSummary c plan),
                        afterPlan ''Action plan generated'' ''Creating 80/20 analysis...'' plan s')))
           | AwaitPlan sitewide analysis srcs \<Rightarrow>
               Some (awaited r5 (\<lambda>plan s'.
                       (Inr (AwaitSummary sitewide analysis srcs plan),
                        afterPlan ''Action plan generated successfully''
                          ''Generating 80/20 analysis...'' plan s')))
           | _ \<Rightarrow> None) = Some seg \<Longrightarrow> isCancelling (snd (seg s)) = isCancelling s"
  "(case a_pc a of
             HitAwaitSummary c plan \<Rightarrow>
               Some (awaited r6 (\<lambda>summary. afterSummaryHit a c plan summary storageOk))
           | AwaitSummary sitewide analysis srcs plan \<Rightarrow>
               Some (awaited r6 (\<lambda>summary.
                       afterSummaryMiss a sitewide analysis srcs plan summary storageOk))
           | _ \<Rightarrow> None) = Some seg \<Longrightarrow> isCancelling (snd (seg s)) = isCancelling s"
  by (auto split: pc.splits option.splits prod.splits intro!: awaited_isCancelling)

lemma settle_isCancelling:
  "isCancelling (settle k a r) = isCancelling (snd r)"
proof (cases r)
  case (Pair x s')
  then show ?thesis by (cases x) (simp_all add: settle_Inl settle_Inr)
qed

lemma resume_isCancelling:
  assumes "\<forall>seg. f (runs s ! k) = Some seg \<longrightarrow> isCancelling (snd (seg s)) = isCancelling s"
  shows "isCancelling (resume k f s) = isCancelling s"
  using assms by (simp add: resume_def Let_def settle_isCancelling split: option.splits)

lemma isCancelling_step:
  "\<not> isCancelling s \<Longrightarrow> \<not> isCancelling (step rankUrls ev s)"
proof (cases ev)
  case (Submit d p)
  assume "\<not> isCancelling s"
  then show ?thesis unfolding Submit
    by (auto simp: step_def handleSubmit_def Let_def split: option.splits)
next
  case Cancel
  show ?thesis unfolding Cancel by (simp add: step_def handleCancelAnalysis_def Let_def)
next
  case NewAnalysis
  assume "\<not> isCancelling s"
  then show ?thesis unfolding NewAnalysis by (simp add: step_def handleNewAnalysis_def)
next
  case (AiConfigChange c)
  assume "\<not> isCancelling s"
  then show ?thesis unfolding AiConfigChange by (simp add: step_def handleAiConfigChange_def)
next
  case (CrawlFrame k p)
  assume "\<not> isCancelling s"
  then show ?thesis unfolding CrawlFrame by (simp add: callback_step isCallback_def)
next
  case (AuditProgress k m)
  assume "\<not> isCancelling s"
  then show ?thesis unfolding AuditProgress by (simp add: callback_step isCallback_def)
next
  case (SeoProgress k m)
  assume "\<not> isCancelling s"
  then show ?thesis unfolding SeoProgress by (simp add: callback_step isCallback_def)
next
  case (PlanProgress k m)
  assume "\<not> isCancelling s"
  then show ?thesis unfolding PlanProgress by (simp add: callback_step isCallback_def)
next
  case (CrawlSettled k r)
  assume "\<not> isCancelling s"
  then show ?thesis unfolding CrawlSettled step_def event.case
    by (subst resume_isCancelling) (intro allI impI, rule segment_isCancelling, simp_all)
next
  case (CacheGetSettled k r)
  assume "\<not> isCancelling s"
  then show ?thesis unfolding CacheGetSettled step_def event.case
    by (subst resume_isCancelling) (intro allI impI, rule segment_isCancelling, simp_all)
next
  case (FanoutSettled k r)
  assume "\<not> isCancelling s"
  then show ?thesis unfolding FanoutSettled step_def event.case
    by (subst resume_isCancelling) (intro allI impI, rule segment_isCancelling, simp_all)
next
  case (CacheSetSettled k r)
  assume "\<not> isCancelling s"
  then show ?thesis unfolding CacheSetSettled step_def event.case
    by (subst resume_isCancelling) (intro allI impI, rule segment_isCancelling, simp_all)
next
  case (PlanSettled k r)
  assume "\<not> isCancelling s"
  then show ?thesis unfolding PlanSettled step_def event.case
    by (subst resume_isCancelling) (intro allI impI, rule segment_isCancelling, simp_all)
next
  case (SummarySettled k r ok)
  assume "\<not> isCancelling s"
  then show ?thesis unfolding SummarySettled step_def event.case
    by (subst resume_isCancelling) (intro allI impI, rule segment_isCancelling, simp_all)
qed

text \<open>The flag \<open>isCancelling\<close> is false between any two events, and so is the copy of it in
  the closure of every activation: \<open>handleCancelAnalysis\<close> sets it and resets it in the same
  handler, before React renders.\<close>

lemma calm_step:
  assumes "calm s"
  shows "calm (step rankUrls ev s)"
proof -
  have c: "\<not> isCancelling s" and a: "\<And>j. j < length (runs s) \<Longrightarrow> \<not> a_isCancelling (runs s ! j)"
    using assms by (simp_all add: calm_def)
  have "\<not> a_isCancelling (runs (step rankUrls ev s) ! j)" if "j < length (runs (step rankUrls ev s))" for j
  proof (cases "j < length (runs s)")
    case True
    then show ?thesis using step_runs(2) [of j s rankUrls ev] a by simp
  next
    case False
    then show ?thesis using step_runs(4) [of s j rankUrls ev] that c by simp
  qed
  then have "\<forall>a \<in> set (runs (step rankUrls ev s)). \<not> a_isCancelling a"
    by (auto simp: in_set_conv_nth)
  then show ?thesis using isCancelling_step [OF c] by (simp add: calm_def)
qed

lemma calm_mounted: "calm (mounted config stored t0 tks)"
  by (simp add: calm_def mounted_def Let_def)

lemma calm_run_all: "calm s \<Longrightarrow> calm (run_all rankUrls evs s)"
  by (induction evs arbitrary: s) (simp_all add: run_all_Nil run_all_Cons calm_step)

lemma returned_run_all:
  "j < length (runs s) \<Longrightarrow> a_pc (runs s ! j) = Returned \<Longrightarrow>
   j < length (runs (run_all rankUrls evs s)) \<and> a_pc (runs (run_all rankUrls evs s) ! j) = Returned"
proof (induction evs arbitrary: s)
  case Nil
  then show ?case by (simp add: run_all_Nil)
next
  case (Cons ev evs)
  have "j < length (runs (step rankUrls ev s))"
    using Cons.prems(1) step_runs(1) [of s rankUrls ev] by simp
  moreover have "a_pc (runs (step rankUrls ev s) ! j) = Returned"
    using Cons.prems by (rule step_runs(3))
  ultimately show ?case using Cons.IH by (simp add: run_all_Cons)
qed

section \<open>The cache write\<close>

lemma returned_ignores:
  assumes "k < length (runs t)" and "a_pc (runs t ! k) = Returned"
  shows "step rankUrls (CrawlSettled k r1) t = t"
    and "step rankUrls (CacheGetSettled k r2) t = t"
    and "step rankUrls (FanoutSettled k r3) t = t"
    and "step rankUrls (CacheSetSettled k r4) t = t"
    and "step rankUrls (PlanSettled k r5) t = t"
    and "step rankUrls (SummarySettled k r6 ok) t = t"
  using assms by (simp_all add: step_def resume_skip)

lemma rejected_at:
  assumes "\<not> a_isCancelling a"
  shows "appState (settle k a (Inl e, s)) = AppError"
    and "error (settle k a (Inl e, s)) = Some (errorMessageOf e)"
    and "statuses (settle k a (Inl e, s)) = failRunning (statuses s)"
    and "analysisHistory (settle k a (Inl e, s)) = analysisHistory s"
    and "storedHistory (settle k a (Inl e, s)) = storedHistory s"
    and "runs (settle k a (Inl e, s)) = (runs s)[k := a\<lparr>a_pc := Returned\<rparr>]"
  using assms by (simp_all add: settle_Inl onRejected_def Let_def failRunning_def)

text \<open>
  C3 (as the code has it). In every state that the application can reach, for every run that
  waits for the cache write (so its fan-out has succeeded): when the cache collaborator's set
  operation is rejected, the rejection is thrown at the \<open>await\<close> like every other collaborator
  failure. The application goes to the error screen with the message of the rejection, the
  stages still running are marked \<open>error\<close>, the history and its persisted copy stay as they
  are, and the run has returned: whatever happens afterwards (\<open>post\<close>), it stays returned, and
  an action plan or a summary delivered to it is ignored. If no other run is in flight, no
  stage changes its status under further collaborator events.
\<close>

theorem cache_write_rejection_fails_run:
  fixes s s' t :: app and rankUrls evs config stored t0 tks k e post
  defines "s \<equiv> run_all rankUrls evs (mounted config stored t0 tks)"
    and "s' \<equiv> step rankUrls (CacheSetSettled k (Inl e))
                 (run_all rankUrls evs (mounted config stored t0 tks))"
    and "t \<equiv> run_all rankUrls post (step rankUrls (CacheSetSettled k (Inl e))
                 (run_all rankUrls evs (mounted config stored t0 tks)))"
  assumes k: "k < length (runs s)" and pc: "a_pc (runs s ! k) = AwaitCacheSet sw an so"
  shows "appState s' = AppError \<and> error s' = Some (errorMessageOf e) \<and>
         statuses s' = failRunning (statuses s) \<and>
         analysisHistory s' = analysisHistory s \<and> storedHistory s' = storedHistory s \<and>
         a_pc (runs t ! k) = Returned \<and>
         step rankUrls (PlanSettled k r1) t = t \<and> step rankUrls (SummarySettled k r2 ok) t = t \<and>
         ((\<forall>j < length (runs s). j \<noteq> k \<longrightarrow> a_pc (runs s ! j) = Returned) \<longrightarrow>
          (\<forall>ev \<in> set post. isCollaborator ev) \<longrightarrow> statuses t = statuses s')"
proof -
  have "calm s" unfolding s_def by (rule calm_run_all) (rule calm_mounted)
  then have nc: "\<not> a_isCancelling (runs s ! k)" using k by (simp add: calm_def)
  have s': "s' = settle k (runs s ! k) (Inl e, s)"
    unfolding s'_def s_def [symmetric] using step_at(4) [OF k pc, of rankUrls "Inl e"]
    by (simp add: awaited_def)
  note r = rejected_at [OF nc, of k e s, folded s']
  have k': "k < length (runs s')" and ret: "a_pc (runs s' ! k) = Returned"
    using k by (simp_all add: r(6))
  have t: "t = run_all rankUrls post s'" by (simp add: t_def s'_def)
  from returned_run_all [OF k' ret, of rankUrls post]
  have kt: "k < length (runs t)" and rt: "a_pc (runs t ! k) = Returned" by (simp_all add: t)
  have alone: "statuses t = statuses s'"
    if others: "\<forall>j < length (runs s). j \<noteq> k \<longrightarrow> a_pc (runs s ! j) = Returned"
      and post: "\<forall>ev \<in> set post. isCollaborator ev"
  proof -
    have "a_pc (runs s' ! j) = Returned" if "j < length (runs s')" for j
      using that others k by (cases "j = k") (simp_all add: r(6))
    then have "allReturned s'" by (auto simp: allReturned_def in_set_conv_nth)
    from quiet_run_all [OF this post, of rankUrls] show ?thesis by (simp add: t)
  qed
  show ?thesis
    using r(1-5) rt returned_ignores(5,6) [OF kt rt] alone by blast
qed

lemma exampleAtCacheSet_runs:
  "map a_pc (runs exampleAtCacheSet) = [AwaitCacheSet ''sitewide'' ''seo'' [''source'']]"
  by code_simp

text \<open>C3, witness: the first run of the application waits for the cache write, which is
  rejected; an action plan and a summary arrive afterwards.\<close>

theorem cache_write_rejection_fails_run_witness:
  "map a_pc (runs exampleAtCacheSet) = [AwaitCacheSet ''sitewide'' ''seo'' [''source'']] \<and>
   map isCollaborator exampleLate = [True, True] \<and>
   appState (step id (CacheSetSettled 0 (Inl (ErrorObj ''quota exceeded''))) exampleAtCacheSet) = AppError \<and>
   error (step id (CacheSetSettled 0 (Inl (ErrorObj ''quota exceeded''))) exampleAtCacheSet)
     = Some ''quota exceeded'' \<and>
   a_pc (runs (run_all id exampleLate
      (step id (CacheSetSettled 0 (Inl (ErrorObj ''quota exceeded''))) exampleAtCacheSet)) ! 0) = Returned \<and>
   statuses (run_all id exampleLate
      (step id (CacheSetSettled 0 (Inl (ErrorObj ''quota exceeded''))) exampleAtCacheSet))
     = statuses (step id (CacheSetSettled 0 (Inl (ErrorObj ''quota exceeded''))) exampleAtCacheSet)"
proof -
  have len: "length (runs exampleAtCacheSet) = 1"
    using arg_cong [OF exampleAtCacheSet_runs, of length] by simp
  have k: "0 < length (runs exampleAtCacheSet)" using len by simp
  have pc: "a_pc (runs exampleAtCacheSet ! 0) = AwaitCacheSet ''sitewide'' ''seo'' [''source'']"
    using arg_cong [OF exampleAtCacheSet_runs, of "\<lambda>l. l ! 0"] k by simp
  have post: "map isCollaborator exampleLate = [True, True]"
    by (simp add: exampleLate_def isCollaborator_def)
  then have post': "\<forall>ev \<in> set exampleLate. isCollaborator ev"
    by (simp add: exampleLate_def isCollaborator_def)
  show ?thesis
    using len post post' exampleAtCacheSet_runs
      cache_write_rejection_fails_run [where rankUrls = id and k = 0
        and evs = "[exampleSubmit, CrawlSettled 0 (Inr [''https://example.com/'']), CacheGetSettled 0 (Inr None),
      FanoutSettled 0 (Inr (''sitewide'', ''seo'', [''source'']))]"
        and config = "Some ''config''" and stored = None and ?t0.0 = 1000 and tks = "replicate 60 5"
        and e = "ErrorObj ''quota exceeded''" and post = exampleLate,
        folded exampleApp_def, folded exampleAtCacheSet_def, OF k pc]
    by (simp add: errorMessageOf_def)
qed

text \<open>
  C3, counterexample to the claim as stated: the first run of the application reaches the
  cache write, the write is rejected, and the run ends on the error screen with \<open>actionplan\<close>
  and \<open>summary\<close> pending and with no history record; an action plan and a summary that
  arrive afterwards change nothing.
\<close>

theorem cache_write_rejection_ends_run:
  "appState (run_all id
       [exampleSubmit, CrawlSettled 0 (Inr [''https://example.com/'']), CacheGetSettled 0 (Inr None),
        FanoutSettled 0 (Inr (''sitewide'', ''seo'', [''source''])),
        CacheSetSettled 0 (Inl (ErrorObj ''quota exceeded''))] exampleApp) = AppError \<and>
   analysisHistory (run_all id
       [exampleSubmit, CrawlSettled 0 (Inr [''https://example.com/'']), CacheGetSettled 0 (Inr None),
        FanoutSettled 0 (Inr (''sitewide'', ''seo'', [''source''])),
        CacheSetSettled 0 (Inl (ErrorObj ''quota exceeded''))] exampleApp) = [] \<and>
   statuses (run_all id
       [exampleSubmit, CrawlSettled 0 (Inr [''https://example.com/'']), CacheGetSettled 0 (Inr None),
        FanoutSettled 0 (Inr (''sitewide'', ''seo'', [''source''])),
        CacheSetSettled 0 (Inl (ErrorObj ''quota exceeded'')),
        PlanSettled 0 (Inr [''day 1'']), SummarySettled 0 (Inr ''summary'') True] exampleApp) =
     [(''crawl'', Complete), (''rank'', Complete), (''competitor'', Complete),
      (''technical'', Complete), (''content'', Complete), (''actionplan'', Pending),
      (''summary'', Pending)]"
  by code_simp

section \<open>Runs that overlap\<close>

text \<open>
  C5 (the code at a failing input). A run is cancelled while its crawl is in flight, and a
  second run is submitted. The crawl of the second run finds no URL: the second run has
  returned, the application is on the error screen with the message of the empty-result
  condition, \<open>crawl\<close> is complete and the six later stages are pending. Then the crawl and
  the cache lookup of the cancelled run answer, and the later stages leave \<open>pending\<close>:
  \<open>rank\<close> is complete, \<open>competitor\<close>, \<open>technical\<close> and \<open>content\<close> are running.
\<close>

theorem cancelled_run_starts_stages_after_empty_crawl:
  "runView exampleSecondEmpty =
     ([AwaitCrawl, Returned], AppError,
      Some ''Crawl complete, but no URLs were found. Your sitemap might be empty or in a format that could not be parsed.'',
      [(''crawl'', Complete), (''rank'', Pending), (''competitor'', Pending), (''technical'', Pending),
       (''content'', Pending), (''actionplan'', Pending), (''summary'', Pending)]) \<and>
   runView exampleStaleFanout =
     ([AwaitFanout [''https://example.com/''], Returned], AppError,
      Some ''Crawl complete, but no URLs were found. Your sitemap might be empty or in a format that could not be parsed.'',
      [(''crawl'', Complete), (''rank'', Complete), (''competitor'', Running), (''technical'', Running),
       (''content'', Running), (''actionplan'', Pending), (''summary'', Pending)])"
  by code_simp

text \<open>
  C6 (the code at a failing input). A run is cancelled while its crawl is in flight, and a
  second run is submitted. The cancelled run goes on to its cache write while the fan-out
  of the second run is in flight; when its cache write resolves it starts \<open>actionplan\<close>, at
  1210. The fan-out of the second run resolves after that: the second run, on the
  cache-miss path, has completed its fan-out, \<open>competitor\<close>, \<open>technical\<close> and \<open>content\<close> ended
  at 1215, 1220 and 1225, and \<open>actionplan\<close> has started before each of them.
\<close>

theorem cancelled_run_starts_actionplan_before_fanout_ends:
  "timesView exampleStalePlan =
     ([AwaitPlan ''sitewide'' ''seo'' [''source''], AwaitCacheSet ''sitewide'' ''seo'' [''source'']],
      [(''crawl'', Complete, Some 1050, Some 1145),
       (''rank'', Complete, Some 1170, Some 1175),
       (''competitor'', Complete, Some 1190, Some 1215),
       (''technical'', Complete, Some 1195, Some 1220),
       (''content'', Complete, Some 1200, Some 1225),
       (''actionplan'', Running, Some 1210, None),
       (''summary'', Pending, None, None)])"
  by code_simp

text \<open>
  C7 (the code at a failing input). A run for example.com is cancelled while its crawl is in
  flight, and a run for example.org is submitted and succeeds: its record is the history,
  in the state and in \<open>localStorage\<close>. Then the cancelled run succeeds too. It prepends its
  record to the history that its closure captured at submission, which is empty: the record
  of the run for example.org is gone from the history and from \<open>localStorage\<close>.
\<close>

theorem cancelled_run_replaces_history:
  "historyView exampleSecondFinished =
     ([AwaitCrawl, Returned], [''https://example.org''], Some [''https://example.org'']) \<and>
   historyView exampleStaleFinished =
     ([Returned, Returned], [''https://example.com''], Some [''https://example.com''])"
  by code_simp

end
